theory Spec2Isabelle
  imports Complex_Main "HOL-Library.AList"
begin


section \<open>Page replacement simulator: data model\<close>

text \<open>
  The development embeds \<^verbatim>\<open>PageReplacementAlgorithm.py\<close>. Page numbers and all counters
  are Python integers. A raised exception is a value of type \<open>error\<close>; a method that can
  raise returns \<open>error + 'a\<close> with \<open>Inl\<close> for the exception. The \<^verbatim>\<open>file\<close> argument of
  \<^verbatim>\<open>simulate\<close> receives one line per request,
  \<^verbatim>\<open>f"{counter}: {ClassName} - Memory state: {self.memory}\n"\<close>; a line is kept here as
  the triple of its three interpolated values and the file as the list of lines written.
\<close>

type_synonym page = int

datatype error =
  IndexError | ValueError | KeyError | ZeroDivisionError | TypeError | AttributeError

type_synonym logline = "int \<times> string \<times> page list"

type_synonym logfile = "logline list"

definition snapshot :: "logline \<Rightarrow> page list" where
  "snapshot l = snd (snd l)"

record pra =
  frames :: int
  memory :: "page list"
  page_faults :: int
  page_hits :: int
  replacements :: int

record fifo = pra +
  queue :: "page list"

text \<open>
  Python dictionaries that are iterated (\<^verbatim>\<open>page_time\<close>, \<^verbatim>\<open>page_frequency\<close>) are
  association lists in insertion order: assigning to a present key keeps its position
  (\<open>AList.update\<close>), \<^verbatim>\<open>del\<close> removes the entry (\<open>AList.delete\<close>). The dictionaries of the
  clock policies are only read and written by key and are maps.
\<close>

record lru = pra +
  page_time :: "(page \<times> int) list"

record lfu = pra +
  page_frequency :: "(page \<times> int) list"

record clock = pra +
  use_bit :: "int \<rightharpoonup> bool"
  hand :: int

record eclock = clock +
  modify_bit :: "int \<rightharpoonup> bool"

subsection \<open>Python list operations that can raise\<close>

definition list_remove :: "'a list \<Rightarrow> 'a \<Rightarrow> error + 'a list" where
  "list_remove xs x = (if x \<in> set xs then Inr (remove1 x xs) else Inl ValueError)"

definition list_setitem :: "'a list \<Rightarrow> int \<Rightarrow> 'a \<Rightarrow> error + 'a list" where
  "list_setitem xs i v =
     (let n = int (length xs); j = (if i < 0 then n + i else i)
      in if 0 \<le> j \<and> j < n then Inr (xs[nat j := v]) else Inl IndexError)"

text \<open>\<^verbatim>\<open>del d[k]\<close> raises \<^verbatim>\<open>KeyError\<close> when the key is absent.\<close>

definition dict_del :: "('k \<times> 'v) list \<Rightarrow> 'k \<Rightarrow> error + ('k \<times> 'v) list" where
  "dict_del d k = (case map_of d k of None \<Rightarrow> Inl KeyError | Some v \<Rightarrow> Inr (AList.delete k d))"

text \<open>
  \<^verbatim>\<open>xs.index(x)\<close> for an element that occurs in the list; every call in the source is
  made for such an element.
\<close>

fun index_of :: "'a list \<Rightarrow> 'a \<Rightarrow> nat" where
  "index_of [] x = 0"
| "index_of (y # ys) x = (if x = y then 0 else Suc (index_of ys x))"

subsection \<open>The base class\<close>

definition is_page_in_memory :: "'a pra_scheme \<Rightarrow> page \<Rightarrow> bool" where
  "is_page_in_memory s page = (page \<in> set (memory s))"

definition record_page_fault :: "'a pra_scheme \<Rightarrow> 'a pra_scheme" where
  "record_page_fault s = s\<lparr>page_faults := page_faults s + 1\<rparr>"

definition record_page_hit :: "'a pra_scheme \<Rightarrow> 'a pra_scheme" where
  "record_page_hit s = s\<lparr>page_hits := page_hits s + 1\<rparr>"

text \<open>The rates are Python floats; the quotient is kept exact here.\<close>

definition get_page_fault_rate :: "'a pra_scheme \<Rightarrow> error + rat" where
  "get_page_fault_rate s =
     (if page_faults s + page_hits s = 0 then Inl ZeroDivisionError
      else Inr (of_int (page_faults s) / of_int (page_faults s + page_hits s)))"

definition get_replacement_rate :: "'a pra_scheme \<Rightarrow> error + rat" where
  "get_replacement_rate s =
     (if page_faults s + page_hits s = 0 then Inl ZeroDivisionError
      else Inr (of_int (replacements s) / of_int (page_faults s + page_hits s)))"

definition base_of :: "'a pra_scheme \<Rightarrow> pra" where
  "base_of s = \<lparr>frames = frames s, memory = memory s, page_faults = page_faults s,
     page_hits = page_hits s, replacements = replacements s\<rparr>"

section \<open>FIFO\<close>

definition FIFO_init :: "int \<Rightarrow> fifo" where
  "FIFO_init n = \<lparr>frames = n, memory = [], page_faults = 0, page_hits = 0,
     replacements = 0, queue = []\<rparr>"

definition fifo_step :: "fifo \<Rightarrow> page \<Rightarrow> error + fifo" where
  "fifo_step s page =
     (if \<not> is_page_in_memory s page then
        (let s1 = record_page_fault s in
         if int (length (memory s1)) = frames s1 then
           (case queue s1 of
              [] \<Rightarrow> Inl IndexError
            | q # qs \<Rightarrow>
                (case list_remove (memory s1) q of
                   Inl e \<Rightarrow> Inl e
                 | Inr m \<Rightarrow>
                     Inr (s1\<lparr>memory := m @ [page], replacements := replacements s1 + 1,
                            queue := qs @ [page]\<rparr>)))
         else Inr (s1\<lparr>memory := memory s1 @ [page], queue := queue s1 @ [page]\<rparr>))
      else Inr (record_page_hit s))"

fun fifo_loop :: "fifo \<Rightarrow> logfile \<Rightarrow> int \<Rightarrow> page list \<Rightarrow> error + (fifo \<times> logfile)" where
  "fifo_loop s file counter [] = Inr (s, file)"
| "fifo_loop s file counter (page # rest) =
     (case fifo_step s page of
        Inl e \<Rightarrow> Inl e
      | Inr s' \<Rightarrow> fifo_loop s' (file @ [(counter, ''FIFO'', memory s')]) (counter + 1) rest)"

definition FIFO_simulate :: "fifo \<Rightarrow> page list \<Rightarrow> logfile \<Rightarrow> error + (fifo \<times> logfile)" where
  "FIFO_simulate s page_sequence file = fifo_loop s file 1 page_sequence"

section \<open>LRU\<close>

definition LRU_init :: "int \<Rightarrow> lru" where
  "LRU_init n = \<lparr>frames = n, memory = [], page_faults = 0, page_hits = 0,
     replacements = 0, page_time = []\<rparr>"

text \<open>
  \<^verbatim>\<open>min(d, key=d.get)\<close>: the first key, in iteration order, whose value is minimal;
  \<^verbatim>\<open>ValueError\<close> on an empty dictionary.
\<close>

fun min_key_from :: "page \<Rightarrow> int \<Rightarrow> (page \<times> int) list \<Rightarrow> page" where
  "min_key_from k v [] = k"
| "min_key_from k v ((k', v') # d) =
     (if v' < v then min_key_from k' v' d else min_key_from k v d)"

definition min_key :: "(page \<times> int) list \<Rightarrow> error + page" where
  "min_key d = (case d of [] \<Rightarrow> Inl ValueError | (k, v) # d' \<Rightarrow> Inr (min_key_from k v d'))"

definition lru_step :: "lru \<Rightarrow> int \<Rightarrow> page \<Rightarrow> error + lru" where
  "lru_step s time page =
     (if \<not> is_page_in_memory s page then
        (let s1 = record_page_fault s in
         if int (length (memory s1)) = frames s1 then
           (case min_key (page_time s1) of
              Inl e \<Rightarrow> Inl e
            | Inr oldest_page \<Rightarrow>
                (case list_remove (memory s1) oldest_page of
                   Inl e \<Rightarrow> Inl e
                 | Inr m \<Rightarrow>
                     (case dict_del (page_time s1) oldest_page of
                        Inl e \<Rightarrow> Inl e
                      | Inr d \<Rightarrow>
                          Inr (s1\<lparr>memory := m @ [page], replacements := replacements s1 + 1,
                                 page_time := AList.update page time d\<rparr>))))
         else Inr (s1\<lparr>memory := memory s1 @ [page],
                       page_time := AList.update page time (page_time s1)\<rparr>))
      else Inr ((record_page_hit s)\<lparr>page_time := AList.update page time (page_time s)\<rparr>))"

fun lru_loop :: "lru \<Rightarrow> logfile \<Rightarrow> int \<Rightarrow> page list \<Rightarrow> error + (lru \<times> logfile)" where
  "lru_loop s file time [] = Inr (s, file)"
| "lru_loop s file time (page # rest) =
     (case lru_step s time page of
        Inl e \<Rightarrow> Inl e
      | Inr s' \<Rightarrow> lru_loop s' (file @ [(time + 1, ''LRU'', memory s')]) (time + 1) rest)"

definition LRU_simulate :: "lru \<Rightarrow> page list \<Rightarrow> logfile \<Rightarrow> error + (lru \<times> logfile)" where
  "LRU_simulate s page_sequence file = lru_loop s file 0 page_sequence"

section \<open>OPT\<close>

definition OPT_init :: "int \<Rightarrow> pra" where
  "OPT_init n = \<lparr>frames = n, memory = [], page_faults = 0, page_hits = 0, replacements = 0\<rparr>"

text \<open>
  The loop of \<^verbatim>\<open>find_longest_unused_page\<close> over \<^verbatim>\<open>self.memory\<close>, with its two local
  variables. \<^verbatim>\<open>future_sequence.index(page)\<close> is only reached when the page occurs in the
  sequence. The method returns \<^verbatim>\<open>None\<close> when the loop never assigns \<^verbatim>\<open>page_to_replace\<close>.
\<close>

fun longest_unused_scan :: "page list \<Rightarrow> page list \<Rightarrow> int \<Rightarrow> page option \<Rightarrow> page option" where
  "longest_unused_scan [] future_sequence last_used page_to_replace = page_to_replace"
| "longest_unused_scan (page # mem) future_sequence last_used page_to_replace =
     (if page \<notin> set future_sequence then Some page
      else (let index = int (index_of future_sequence page) in
            if index > last_used then longest_unused_scan mem future_sequence index (Some page)
            else longest_unused_scan mem future_sequence last_used page_to_replace))"

definition find_longest_unused_page :: "'a pra_scheme \<Rightarrow> page list \<Rightarrow> page option" where
  "find_longest_unused_page s future_sequence =
     longest_unused_scan (memory s) future_sequence (- 1) None"

text \<open>
  The third argument is the slice \<^verbatim>\<open>page_sequence[i + 1:]\<close>. \<^verbatim>\<open>self.memory.remove(None)\<close>
  raises \<^verbatim>\<open>ValueError\<close>, since \<^verbatim>\<open>None\<close> is never a page.
\<close>

definition opt_step :: "pra \<Rightarrow> page \<Rightarrow> page list \<Rightarrow> error + pra" where
  "opt_step s page future_sequence =
     (if \<not> is_page_in_memory s page then
        (let s1 = record_page_fault s in
         if int (length (memory s1)) = frames s1 then
           (case find_longest_unused_page s1 future_sequence of
              None \<Rightarrow> Inl ValueError
            | Some longest_unused_page \<Rightarrow>
                (case list_remove (memory s1) longest_unused_page of
                   Inl e \<Rightarrow> Inl e
                 | Inr m \<Rightarrow>
                     Inr (s1\<lparr>memory := m @ [page], replacements := replacements s1 + 1\<rparr>)))
         else Inr (s1\<lparr>memory := memory s1 @ [page]\<rparr>))
      else Inr (record_page_hit s))"

fun opt_loop :: "pra \<Rightarrow> logfile \<Rightarrow> int \<Rightarrow> page list \<Rightarrow> error + (pra \<times> logfile)" where
  "opt_loop s file counter [] = Inr (s, file)"
| "opt_loop s file counter (page # rest) =
     (case opt_step s page rest of
        Inl e \<Rightarrow> Inl e
      | Inr s' \<Rightarrow> opt_loop s' (file @ [(counter, ''OPT'', memory s')]) (counter + 1) rest)"

definition OPT_simulate :: "pra \<Rightarrow> page list \<Rightarrow> logfile \<Rightarrow> error + (pra \<times> logfile)" where
  "OPT_simulate s page_sequence file = opt_loop s file 1 page_sequence"

section \<open>LFU\<close>

definition LFU_init :: "int \<Rightarrow> lfu" where
  "LFU_init n = \<lparr>frames = n, memory = [], page_faults = 0, page_hits = 0,
     replacements = 0, page_frequency = []\<rparr>"

text \<open>\<^verbatim>\<open>min(d.values())\<close> raises \<^verbatim>\<open>ValueError\<close> on an empty dictionary.\<close>

definition min_value :: "(page \<times> int) list \<Rightarrow> error + int" where
  "min_value d = (if d = [] then Inl ValueError else Inr (min_list (map snd d)))"

definition find_least_frequent_page :: "lfu \<Rightarrow> error + page option" where
  "find_least_frequent_page s =
     (case min_value (page_frequency s) of
        Inl e \<Rightarrow> Inl e
      | Inr least_used \<Rightarrow>
          (let least_frequent_pages =
                 filter (\<lambda>page. map_of (page_frequency s) page = Some least_used)
                   (map fst (page_frequency s))
           in Inr (find (\<lambda>page. page \<in> set least_frequent_pages) (memory s))))"

definition lfu_step :: "lfu \<Rightarrow> page \<Rightarrow> error + lfu" where
  "lfu_step s page =
     (if \<not> is_page_in_memory s page then
        (let s1 = record_page_fault s in
         if int (length (memory s1)) = frames s1 then
           (case find_least_frequent_page s1 of
              Inl e \<Rightarrow> Inl e
            | Inr None \<Rightarrow> Inl ValueError
            | Inr (Some least_frequent_page) \<Rightarrow>
                (case list_remove (memory s1) least_frequent_page of
                   Inl e \<Rightarrow> Inl e
                 | Inr m \<Rightarrow>
                     (case dict_del (page_frequency s1) least_frequent_page of
                        Inl e \<Rightarrow> Inl e
                      | Inr d \<Rightarrow>
                          Inr (s1\<lparr>memory := m @ [page], replacements := replacements s1 + 1,
                                 page_frequency := AList.update page 1 d\<rparr>))))
         else Inr (s1\<lparr>memory := memory s1 @ [page],
                       page_frequency := AList.update page 1 (page_frequency s1)\<rparr>))
      else
        (let s1 = record_page_hit s in
         case map_of (page_frequency s1) page of
           None \<Rightarrow> Inl KeyError
         | Some f \<Rightarrow> Inr (s1\<lparr>page_frequency := AList.update page (f + 1) (page_frequency s1)\<rparr>)))"

fun lfu_loop :: "lfu \<Rightarrow> logfile \<Rightarrow> int \<Rightarrow> page list \<Rightarrow> error + (lfu \<times> logfile)" where
  "lfu_loop s file counter [] = Inr (s, file)"
| "lfu_loop s file counter (page # rest) =
     (case lfu_step s page of
        Inl e \<Rightarrow> Inl e
      | Inr s' \<Rightarrow> lfu_loop s' (file @ [(counter, ''LFU'', memory s')]) (counter + 1) rest)"

definition LFU_simulate :: "lfu \<Rightarrow> page list \<Rightarrow> logfile \<Rightarrow> error + (lfu \<times> logfile)" where
  "LFU_simulate s page_sequence file = lfu_loop s file 1 page_sequence"

section \<open>SimpleCLOCK\<close>

definition SimpleCLOCK_init :: "int \<Rightarrow> clock" where
  "SimpleCLOCK_init n = \<lparr>frames = n, memory = [], page_faults = 0, page_hits = 0,
     replacements = 0, use_bit = (\<lambda>i. if 0 \<le> i \<and> i < n then Some False else None),
     hand = 0\<rparr>"

text \<open>
  The \<^verbatim>\<open>while self.use_bit[self.hand]\<close> loop. Reading an absent key raises
  \<^verbatim>\<open>KeyError\<close>, and \<^verbatim>\<open>% self.frames\<close> raises \<^verbatim>\<open>ZeroDivisionError\<close> for zero frames. The
  hand only visits the residues modulo \<^verbatim>\<open>frames\<close>, and every round clears a set bit.
\<close>

definition residues :: "int \<Rightarrow> int set" where
  "residues n = (if 0 < n then {0..<n} else {n<..0})"

definition set_bits :: "int \<Rightarrow> (int \<rightharpoonup> bool) \<Rightarrow> int \<Rightarrow> nat" where
  "set_bits n ub h =
     card {k \<in> residues n. ub k = Some True} + (if h \<in> residues n then 0 else 1)"

function sc_sweep :: "int \<Rightarrow> (int \<rightharpoonup> bool) \<Rightarrow> int \<Rightarrow> error + ((int \<rightharpoonup> bool) \<times> int)" where
  "sc_sweep n ub h =
     (case ub h of
        None \<Rightarrow> Inl KeyError
      | Some b \<Rightarrow>
          if b then
            (if n = 0 then Inl ZeroDivisionError
             else sc_sweep n (ub(h \<mapsto> False)) ((h + 1) mod n))
          else Inr (ub, h))"
  by pat_completeness auto

termination sc_sweep
proof (relation "measure (\<lambda>(n, ub, h). set_bits n ub h)", goal_cases)
  case 1
  show ?case by simp
next
  case (2 n ub h b)
  have next_in: "(h + 1) mod n \<in> residues n"
    using \<open>n \<noteq> 0\<close>
    by (auto simp: residues_def intro: neg_mod_bound pos_mod_bound neg_mod_sign)
  have fin: "finite {k \<in> residues n. ub k = Some True}"
    by (simp add: residues_def)
  have "set_bits n (ub(h \<mapsto> False)) ((h + 1) mod n) < set_bits n ub h"
  proof (cases "h \<in> residues n")
    case True
    have eq: "{k \<in> residues n. (ub(h \<mapsto> False)) k = Some True}
              = {k \<in> residues n. ub k = Some True} - {h}"
      by auto
    have "h \<in> {k \<in> residues n. ub k = Some True}"
      using True 2 by simp
    with fin have "card ({k \<in> residues n. ub k = Some True} - {h})
          < card {k \<in> residues n. ub k = Some True}"
      by (rule card_Diff1_less)
    then have "card {k \<in> residues n. (ub(h \<mapsto> False)) k = Some True}
               < card {k \<in> residues n. ub k = Some True}"
      by (simp only: eq)
    with next_in True show ?thesis
      unfolding set_bits_def by presburger
  next
    case False
    have eq: "{k \<in> residues n. (ub(h \<mapsto> False)) k = Some True}
              = {k \<in> residues n. ub k = Some True}"
      using False by auto
    from next_in False show ?thesis
      unfolding set_bits_def eq by simp
  qed
  then show ?case by simp
qed

declare sc_sweep.simps [simp del]

definition sc_step :: "clock \<Rightarrow> page \<Rightarrow> error + clock" where
  "sc_step s page =
     (if \<not> is_page_in_memory s page then
        (let s1 = record_page_fault s in
         case sc_sweep (frames s1) (use_bit s1) (hand s1) of
           Inl e \<Rightarrow> Inl e
         | Inr (ub, h) \<Rightarrow>
             if int (length (memory s1)) = frames s1 then
               (case list_setitem (memory s1) h page of
                  Inl e \<Rightarrow> Inl e
                | Inr m \<Rightarrow>
                    Inr (s1\<lparr>memory := m, replacements := replacements s1 + 1,
                           use_bit := ub(h \<mapsto> True), hand := h\<rparr>))
             else Inr (s1\<lparr>memory := memory s1 @ [page], use_bit := ub(h \<mapsto> True), hand := h\<rparr>))
      else
        (let s1 = record_page_hit s;
             page_index = int (index_of (memory s1) page)
         in Inr (s1\<lparr>use_bit := (use_bit s1)(page_index \<mapsto> True)\<rparr>)))"

fun sc_loop :: "clock \<Rightarrow> logfile \<Rightarrow> int \<Rightarrow> page list \<Rightarrow> error + (clock \<times> logfile)" where
  "sc_loop s file counter [] = Inr (s, file)"
| "sc_loop s file counter (page # rest) =
     (case sc_step s page of
        Inl e \<Rightarrow> Inl e
      | Inr s' \<Rightarrow>
          sc_loop s' (file @ [(counter, ''SimpleCLOCK'', memory s')]) (counter + 1) rest)"

definition SimpleCLOCK_simulate ::
    "clock \<Rightarrow> page list \<Rightarrow> logfile \<Rightarrow> error + (clock \<times> logfile)" where
  "SimpleCLOCK_simulate s page_sequence file = sc_loop s file 1 page_sequence"

section \<open>EnhancedCLOCK\<close>

definition EnhancedCLOCK_init :: "int \<Rightarrow> eclock" where
  "EnhancedCLOCK_init n = \<lparr>frames = n, memory = [], page_faults = 0, page_hits = 0,
     replacements = 0, use_bit = (\<lambda>i. if 0 \<le> i \<and> i < n then Some False else None),
     hand = 0, modify_bit = (\<lambda>i. if 0 \<le> i \<and> i < n then Some False else None)\<rparr>"

text \<open>
  The test \<^verbatim>\<open>not self.use_bit[self.hand] and not self.modify_bit[self.hand]\<close>: the
  modify bit is read only when the use bit is false.
\<close>

definition slot_free :: "eclock \<Rightarrow> error + bool" where
  "slot_free s =
     (case use_bit s (hand s) of
        None \<Rightarrow> Inl KeyError
      | Some u \<Rightarrow>
          if \<not> u then
            (case modify_bit s (hand s) of None \<Rightarrow> Inl KeyError | Some m \<Rightarrow> Inr (\<not> m))
          else Inr False)"

text \<open>\<^verbatim>\<open>self.hand = (self.hand + 1) % self.frames\<close>\<close>

definition advance_hand :: "'a clock_scheme \<Rightarrow> error + 'a clock_scheme" where
  "advance_hand s =
     (if frames s = 0 then Inl ZeroDivisionError
      else Inr (s\<lparr>hand := (hand s + 1) mod frames s\<rparr>))"

text \<open>The body of the branch that places the page, up to \<^verbatim>\<open>replaced = True\<close>.\<close>

definition ec_place :: "eclock \<Rightarrow> page \<Rightarrow> error + eclock" where
  "ec_place s page =
     (if int (length (memory s)) = frames s then
        (case list_setitem (memory s) (hand s) page of
           Inl e \<Rightarrow> Inl e
         | Inr m \<Rightarrow>
             Inr (s\<lparr>memory := m, replacements := replacements s + 1,
                    modify_bit := (modify_bit s)(hand s \<mapsto> False)\<rparr>))
      else Inr (s\<lparr>memory := memory s @ [page],
                  modify_bit := (modify_bit s)(hand s \<mapsto> False)\<rparr>))"

text \<open>
  The \<^verbatim>\<open>while not replaced\<close> loop. Nothing in the loop clears a modify bit of a slot it
  passes, so the loop need not end from an arbitrary state: not returning is \<open>None\<close>.
\<close>

partial_function (option) ec_replace :: "eclock \<Rightarrow> page \<Rightarrow> (error + eclock) option" where
  "ec_replace s page =
     (case slot_free s of
        Inl e \<Rightarrow> Some (Inl e)
      | Inr free \<Rightarrow>
          if free then
            (case ec_place s page of
               Inl e \<Rightarrow> Some (Inl e)
             | Inr s1 \<Rightarrow> Some (advance_hand s1))
          else
            (case advance_hand (s\<lparr>use_bit := (use_bit s)(hand s \<mapsto> False)\<rparr>) of
               Inl e \<Rightarrow> Some (Inl e)
             | Inr s1 \<Rightarrow> ec_replace s1 page))"

declare ec_replace.simps [code]

definition ec_step :: "eclock \<Rightarrow> page \<Rightarrow> (error + eclock) option" where
  "ec_step s page =
     (if \<not> is_page_in_memory s page then
        (case ec_replace (record_page_fault s) page of
           None \<Rightarrow> None
         | Some (Inl e) \<Rightarrow> Some (Inl e)
         | Some (Inr s1) \<Rightarrow> Some (Inr (s1\<lparr>use_bit := (use_bit s1)(hand s1 \<mapsto> True)\<rparr>)))
      else
        (let s1 = record_page_hit s;
             page_index = int (index_of (memory s1) page)
         in Some (Inr (s1\<lparr>use_bit := (use_bit s1)(page_index \<mapsto> True)\<rparr>))))"

fun ec_loop ::
    "eclock \<Rightarrow> logfile \<Rightarrow> int \<Rightarrow> page list \<Rightarrow> (error + (eclock \<times> logfile)) option" where
  "ec_loop s file counter [] = Some (Inr (s, file))"
| "ec_loop s file counter (page # rest) =
     (case ec_step s page of
        None \<Rightarrow> None
      | Some (Inl e) \<Rightarrow> Some (Inl e)
      | Some (Inr s') \<Rightarrow>
          ec_loop s' (file @ [(counter, ''EnhancedCLOCK'', memory s')]) (counter + 1) rest)"

definition EnhancedCLOCK_simulate ::
    "eclock \<Rightarrow> page list \<Rightarrow> logfile \<Rightarrow> (error + (eclock \<times> logfile)) option" where
  "EnhancedCLOCK_simulate s page_sequence file = ec_loop s file 1 page_sequence"

section \<open>Running a policy class, and the aggregator\<close>

datatype alg_class = FIFO | LRU | OPT | LFU | SimpleCLOCK | EnhancedCLOCK

fun class_name :: "alg_class \<Rightarrow> string" where
  "class_name FIFO = ''FIFO''"
| "class_name LRU = ''LRU''"
| "class_name OPT = ''OPT''"
| "class_name LFU = ''LFU''"
| "class_name SimpleCLOCK = ''SimpleCLOCK''"
| "class_name EnhancedCLOCK = ''EnhancedCLOCK''"

definition finished :: "error + ('a pra_scheme \<times> logfile) \<Rightarrow> error + (pra \<times> logfile)" where
  "finished r = (case r of Inl e \<Rightarrow> Inl e | Inr (s, file) \<Rightarrow> Inr (base_of s, file))"

text \<open>
  \<^verbatim>\<open>alg = alg_class(frames); alg.simulate(page_sequence, file)\<close>: the fields of the base
  class after the run, and the file. \<open>None\<close> is a run that does not return.
\<close>

fun simulate_class ::
    "alg_class \<Rightarrow> int \<Rightarrow> page list \<Rightarrow> logfile \<Rightarrow> (error + (pra \<times> logfile)) option" where
  "simulate_class FIFO n page_sequence file =
     Some (finished (FIFO_simulate (FIFO_init n) page_sequence file))"
| "simulate_class LRU n page_sequence file =
     Some (finished (LRU_simulate (LRU_init n) page_sequence file))"
| "simulate_class OPT n page_sequence file =
     Some (finished (OPT_simulate (OPT_init n) page_sequence file))"
| "simulate_class LFU n page_sequence file =
     Some (finished (LFU_simulate (LFU_init n) page_sequence file))"
| "simulate_class SimpleCLOCK n page_sequence file =
     Some (finished (SimpleCLOCK_simulate (SimpleCLOCK_init n) page_sequence file))"
| "simulate_class EnhancedCLOCK n page_sequence file =
     map_option finished (EnhancedCLOCK_simulate (EnhancedCLOCK_init n) page_sequence file)"

text \<open>
  What a run shows of itself: the fields of the base class and the resident list written
  to the file after each request.
\<close>

definition outcome ::
    "(error + (pra \<times> logfile)) option \<Rightarrow> (error + (pra \<times> page list list)) option" where
  "outcome r = map_option (map_sum id (\<lambda>(s, f). (s, map snapshot f))) r"

text \<open>
  The values held by the \<^verbatim>\<open>results\<close> dictionary of \<^verbatim>\<open>test_page_replacement_algorithms\<close>:
  floats, lists and string-keyed dictionaries. Subscripting with a string succeeds on a
  dictionary that has the key; on a list it raises \<^verbatim>\<open>TypeError\<close> (list indices must be
  integers or slices). Only a list has \<^verbatim>\<open>append\<close>; looking it up on another value
  raises \<^verbatim>\<open>AttributeError\<close>.
\<close>

datatype pyval = PyFloat rat | PyList "pyval list" | PyDict "(string \<times> pyval) list"

fun py_getitem_str :: "pyval \<Rightarrow> string \<Rightarrow> error + pyval" where
  "py_getitem_str (PyDict d) key = (case map_of d key of None \<Rightarrow> Inl KeyError | Some v \<Rightarrow> Inr v)"
| "py_getitem_str (PyList xs) key = Inl TypeError"
| "py_getitem_str (PyFloat x) key = Inl TypeError"

text \<open>
  \<^verbatim>\<open>results[name][key].append(rate())\<close>: the list and its \<^verbatim>\<open>append\<close> are looked up
  before the argument is evaluated, and the extended list stays under the same keys.
\<close>

definition append_rate ::
    "(string \<times> pyval) list \<Rightarrow> string \<Rightarrow> string \<Rightarrow> error + rat \<Rightarrow> error + (string \<times> pyval) list" where
  "append_rate results name key rate =
     (case map_of results name of
        None \<Rightarrow> Inl KeyError
      | Some entry \<Rightarrow>
          (case py_getitem_str entry key of
             Inl e \<Rightarrow> Inl e
           | Inr (PyList rates) \<Rightarrow>
               (case rate of
                  Inl e \<Rightarrow> Inl e
                | Inr r \<Rightarrow>
                    (case entry of
                       PyDict d \<Rightarrow>
                         Inr (AList.update name
                                (PyDict (AList.update key (PyList (rates @ [PyFloat r])) d))
                                results)
                     | _ \<Rightarrow> Inl TypeError))
           | Inr _ \<Rightarrow> Inl AttributeError))"

text \<open>The body of the inner loop, for one class and one frame count.\<close>

definition test_one ::
    "alg_class \<Rightarrow> int \<Rightarrow> page list \<Rightarrow> (string \<times> pyval) list \<times> logfile \<Rightarrow>
     (error + ((string \<times> pyval) list \<times> logfile)) option" where
  "test_one alg_class n page_sequence st =
     (case simulate_class alg_class n page_sequence (snd st) of
        None \<Rightarrow> None
      | Some (Inl e) \<Rightarrow> Some (Inl e)
      | Some (Inr (alg, file)) \<Rightarrow>
          (case append_rate (fst st) (class_name alg_class) ''page_fault_rates''
                  (get_page_fault_rate alg) of
             Inl e \<Rightarrow> Some (Inl e)
           | Inr results1 \<Rightarrow>
               (case append_rate results1 (class_name alg_class) ''replacement_rates''
                       (get_replacement_rate alg) of
                  Inl e \<Rightarrow> Some (Inl e)
                | Inr results2 \<Rightarrow> Some (Inr (results2, file)))))"

fun test_classes ::
    "alg_class list \<Rightarrow> int \<Rightarrow> page list \<Rightarrow> (string \<times> pyval) list \<times> logfile \<Rightarrow>
     (error + ((string \<times> pyval) list \<times> logfile)) option" where
  "test_classes [] n page_sequence st = Some (Inr st)"
| "test_classes (alg_class # algorithms) n page_sequence st =
     (case test_one alg_class n page_sequence st of
        None \<Rightarrow> None
      | Some (Inl e) \<Rightarrow> Some (Inl e)
      | Some (Inr st') \<Rightarrow> test_classes algorithms n page_sequence st')"

fun test_frames ::
    "alg_class list \<Rightarrow> int list \<Rightarrow> page list \<Rightarrow> (string \<times> pyval) list \<times> logfile \<Rightarrow>
     (error + ((string \<times> pyval) list \<times> logfile)) option" where
  "test_frames algorithms [] page_sequence st = Some (Inr st)"
| "test_frames algorithms (n # frame_counts) page_sequence st =
     (case test_classes algorithms n page_sequence st of
        None \<Rightarrow> None
      | Some (Inl e) \<Rightarrow> Some (Inl e)
      | Some (Inr st') \<Rightarrow> test_frames algorithms frame_counts page_sequence st')"

text \<open>
  \<^verbatim>\<open>results = {alg.__name__: [] for alg in algorithms}\<close>, the two loops, and the returned
  dictionary (with the file as it was left).
\<close>

definition test_page_replacement_algorithms ::
    "alg_class list \<Rightarrow> page list \<Rightarrow> int list \<Rightarrow> logfile \<Rightarrow>
     (error + ((string \<times> pyval) list \<times> logfile)) option" where
  "test_page_replacement_algorithms algorithms page_sequence frame_counts file =
     (let results = fold (\<lambda>alg. AList.update (class_name alg) (PyList [])) algorithms []
      in test_frames algorithms frame_counts page_sequence (results, file))"

section \<open>Invariants of a run\<close>

text \<open>
  What every policy keeps true between two requests when it was created with at least one
  frame: the resident pages are distinct and at most \<open>frames\<close> many, and every fault either
  filled a free frame or replaced a page.
\<close>

definition base_inv :: "'a pra_scheme \<Rightarrow> bool" where
  "base_inv s \<longleftrightarrow>
     1 \<le> frames s \<and> distinct (memory s) \<and> int (length (memory s)) \<le> frames s \<and>
     page_faults s = replacements s + int (length (memory s))"

text \<open>
  The effect of one request on the fields of the base class: a hit changes the hit count
  only, a fault is counted as a fault, and the requested page is resident afterwards.
\<close>

definition step_ok :: "'a pra_scheme \<Rightarrow> page \<Rightarrow> 'a pra_scheme \<Rightarrow> bool" where
  "step_ok s p s' \<longleftrightarrow>
     frames s' = frames s \<and> p \<in> set (memory s') \<and>
     (if p \<in> set (memory s)
      then memory s' = memory s \<and> page_faults s' = page_faults s \<and>
           replacements s' = replacements s \<and> page_hits s' = page_hits s + 1
      else page_faults s' = page_faults s + 1 \<and> page_hits s' = page_hits s)"

text \<open>
  The boundary case of the specification, one frame: a fault makes the requested page the
  sole resident page and counts a replacement unless the frame was empty.
\<close>

definition single_frame_step :: "pra \<Rightarrow> page \<Rightarrow> pra" where
  "single_frame_step s p =
     (if p \<in> set (memory s) then s\<lparr>page_hits := page_hits s + 1\<rparr>
      else s\<lparr>memory := [p], page_faults := page_faults s + 1,
             replacements := replacements s + (if memory s = [] then 0 else 1)\<rparr>)"

text \<open>
  The effect of a run over \<open>ps\<close> that started in \<open>s\<close>, ended in \<open>s'\<close> and wrote the lines
  \<open>f\<close>.
\<close>

definition run_ok :: "'a pra_scheme \<Rightarrow> page list \<Rightarrow> 'a pra_scheme \<Rightarrow> logfile \<Rightarrow> bool" where
  "run_ok s ps s' f \<longleftrightarrow>
     frames s' = frames s \<and>
     page_faults s' + page_hits s' = page_faults s + page_hits s + int (length ps) \<and>
     length f = length ps \<and>
     memory s' = last (memory s # map snapshot f) \<and>
     list_all (\<lambda>l. int (length (snapshot l)) \<le> frames s) f \<and>
     (frames s = 1 \<longrightarrow>
        base_of s' = foldl single_frame_step (base_of s) ps \<and>
        map snapshot f = map (\<lambda>p. [p]) ps)"

text \<open>The queue and the resident list of FIFO are the same list.\<close>

definition fifo_inv :: "fifo \<Rightarrow> bool" where
  "fifo_inv s \<longleftrightarrow> base_inv s \<and> queue s = memory s"

text \<open>The keys of \<^verbatim>\<open>page_time\<close> are the resident pages.\<close>

definition lru_inv :: "lru \<Rightarrow> bool" where
  "lru_inv s \<longleftrightarrow> base_inv s \<and> fst ` set (page_time s) = set (memory s)"

text \<open>The keys of \<^verbatim>\<open>page_frequency\<close> are the resident pages, each once.\<close>

definition lfu_inv :: "lfu \<Rightarrow> bool" where
  "lfu_inv s \<longleftrightarrow>
     base_inv s \<and> fst ` set (page_frequency s) = set (memory s) \<and>
     distinct (map fst (page_frequency s))"

text \<open>Every frame number has a use bit, and the hand is a frame number.\<close>

definition bits_on :: "int \<Rightarrow> (int \<rightharpoonup> bool) \<Rightarrow> bool" where
  "bits_on n ub \<longleftrightarrow> (\<forall>k. 0 \<le> k \<and> k < n \<longrightarrow> ub k \<noteq> None)"

definition sc_inv :: "'a clock_scheme \<Rightarrow> bool" where
  "sc_inv s \<longleftrightarrow>
     base_inv s \<and> 0 \<le> hand s \<and> hand s < frames s \<and> bits_on (frames s) (use_bit s)"

text \<open>No modify bit is set, and every frame number has a cleared one.\<close>

definition mods_clear :: "int \<Rightarrow> (int \<rightharpoonup> bool) \<Rightarrow> bool" where
  "mods_clear n mb \<longleftrightarrow> (\<forall>k. 0 \<le> k \<and> k < n \<longrightarrow> mb k = Some False) \<and> (\<forall>k. mb k \<noteq> Some True)"

definition clock_ready :: "eclock \<Rightarrow> bool" where
  "clock_ready s \<longleftrightarrow>
     1 \<le> frames s \<and> int (length (memory s)) \<le> frames s \<and> 0 \<le> hand s \<and> hand s < frames s \<and>
     bits_on (frames s) (use_bit s) \<and> mods_clear (frames s) (modify_bit s)"

text \<open>What the replacement loop of EnhancedCLOCK does to the state it starts in.\<close>

definition placed :: "eclock \<Rightarrow> page \<Rightarrow> eclock \<Rightarrow> bool" where
  "placed s p s' \<longleftrightarrow>
     clock_ready s' \<and> frames s' = frames s \<and> page_faults s' = page_faults s \<and>
     page_hits s' = page_hits s \<and>
     (if int (length (memory s)) = frames s
      then (\<exists>h. 0 \<le> h \<and> h < frames s \<and> memory s' = (memory s)[nat h := p]) \<and>
           replacements s' = replacements s + 1
      else memory s' = memory s @ [p] \<and> replacements s' = replacements s)"

definition ec_inv :: "eclock \<Rightarrow> bool" where
  "ec_inv s \<longleftrightarrow> base_inv s \<and> clock_ready s"

section \<open>The invariants hold\<close>

subsection \<open>Any policy\<close>

lemma run_ok_Nil: "run_ok s [] s []"
  by (simp add: run_ok_def)

lemma single_frame_memory:
  assumes "base_inv s" and "frames s = 1" and "p \<in> set (memory s)"
  shows "memory s = [p]"
proof -
  have "length (memory s) \<le> 1"
    using assms(1,2) by (simp add: base_inv_def)
  with assms(3) show ?thesis
    by (cases "memory s") auto
qed

lemma step_ok_single_frame:
  assumes "base_inv s" and "base_inv s1" and "step_ok s p s1" and "frames s = 1"
  shows "base_of s1 = single_frame_step (base_of s) p"
proof (cases "p \<in> set (memory s)")
  case True
  with assms(3) show ?thesis
    by (simp add: step_ok_def base_of_def single_frame_step_def)
next
  case False
  have f1: "frames s1 = 1"
    using assms(3,4) by (simp add: step_ok_def)
  have "p \<in> set (memory s1)"
    using assms(3) by (simp add: step_ok_def)
  then have m1: "memory s1 = [p]"
    using assms(2) f1 by (intro single_frame_memory)
  have r1: "page_faults s1 = replacements s1 + 1"
    using assms(2) m1 by (simp add: base_inv_def)
  have r0: "page_faults s = replacements s + int (length (memory s))"
    using assms(1) by (simp add: base_inv_def)
  have len: "length (memory s) \<le> 1"
    using assms(1,4) by (simp add: base_inv_def)
  have pf: "page_faults s1 = page_faults s + 1" "page_hits s1 = page_hits s"
    using assms(3) False by (simp_all add: step_ok_def)
  have "replacements s1 = replacements s + (if memory s = [] then 0 else 1)"
    using r1 r0 pf len by (cases "memory s") auto
  with False m1 pf f1 assms(4) show ?thesis
    by (simp add: base_of_def single_frame_step_def)
qed

lemma run_ok_Cons:
  assumes "base_inv s" and "base_inv s1" and "step_ok s p s1" and "run_ok s1 ps s' f"
  shows "run_ok s (p # ps) s' ((c, name, memory s1) # f)"
proof -
  have fr: "frames s1 = frames s"
    using assms(3) by (simp add: step_ok_def)
  have cnt: "page_faults s1 + page_hits s1 = page_faults s + page_hits s + 1"
    using assms(3) by (auto simp: step_ok_def split: if_splits)
  have len: "int (length (memory s1)) \<le> frames s"
    using assms(2) fr by (simp add: base_inv_def)
  have one: "frames s = 1 \<Longrightarrow> base_of s1 = single_frame_step (base_of s) p \<and> memory s1 = [p]"
  proof -
    assume a: "frames s = 1"
    have "p \<in> set (memory s1)"
      using assms(3) by (simp add: step_ok_def)
    then have "memory s1 = [p]"
      using assms(2) a fr by (intro single_frame_memory) simp_all
    moreover have "base_of s1 = single_frame_step (base_of s) p"
      using assms(1,2,3) a by (rule step_ok_single_frame)
    ultimately show ?thesis by simp
  qed
  show ?thesis
    using assms(4) fr cnt len one by (auto simp: run_ok_def snapshot_def)
qed

lemma full_memory_nonempty:
  assumes "base_inv s" and "int (length (memory s)) = frames s"
  shows "memory s \<noteq> []"
  using assms by (auto simp: base_inv_def)

lemma base_inv_replace:
  assumes "base_inv s" and "int (length (memory s)) = frames s" and "v \<in> set (memory s)"
    and "p \<notin> set (memory s)"
  shows "base_inv (s\<lparr>page_faults := page_faults s + 1, memory := remove1 v (memory s) @ [p],
           replacements := replacements s + 1\<rparr>)"
proof -
  have "length (remove1 v (memory s)) = length (memory s) - 1"
    using assms(3) by (simp add: length_remove1)
  moreover have "memory s \<noteq> []"
    using assms(3) by auto
  moreover have "p \<notin> set (remove1 v (memory s))"
    using assms(4) by (meson notin_set_remove1)
  ultimately show ?thesis
    using assms(1,2) by (cases "memory s") (auto simp: base_inv_def)
qed

lemma base_inv_append:
  assumes "base_inv s" and "int (length (memory s)) \<noteq> frames s" and "p \<notin> set (memory s)"
  shows "base_inv (s\<lparr>page_faults := page_faults s + 1, memory := memory s @ [p]\<rparr>)"
  using assms by (auto simp: base_inv_def)

lemma list_setitem_in_range:
  assumes "0 \<le> h" and "h < int (length xs)"
  shows "list_setitem xs h v = Inr (xs[nat h := v])"
  using assms by (simp add: list_setitem_def Let_def)

lemma base_inv_overwrite:
  assumes "base_inv s" and "int (length (memory s)) = frames s" and "0 \<le> h" and "h < frames s"
    and "p \<notin> set (memory s)"
  shows "base_inv (s\<lparr>page_faults := page_faults s + 1, memory := (memory s)[nat h := p],
           replacements := replacements s + 1\<rparr>)"
proof -
  have "distinct (memory s)"
    using assms(1) by (simp add: base_inv_def)
  then have "distinct ((memory s)[nat h := p])"
    using assms(5) by (intro distinct_list_update) auto
  then show ?thesis
    using assms(1,2) by (simp add: base_inv_def)
qed

lemma base_inv_base_of: "base_inv (base_of s) = base_inv s"
  by (simp add: base_inv_def base_of_def)

lemma base_of_pra: "base_of (s :: pra) = s"
  by (cases s) (simp add: base_of_def)

lemma run_ok_base_of:
  assumes "run_ok s ps s' f" and "base_of s = s0"
  shows "run_ok s0 ps (base_of s') f"
proof -
  have "base_of (base_of s') = base_of s'" and "base_of (base_of s) = base_of s"
    by (simp_all add: base_of_pra)
  moreover have "frames (base_of s) = frames s" "memory (base_of s) = memory s"
    "page_faults (base_of s) = page_faults s" "page_hits (base_of s) = page_hits s"
    "frames (base_of s') = frames s'" "memory (base_of s') = memory s'"
    "page_faults (base_of s') = page_faults s'" "page_hits (base_of s') = page_hits s'"
    by (simp_all add: base_of_def)
  ultimately show ?thesis
    using assms(1) unfolding run_ok_def assms(2) [symmetric] by (simp add: base_of_pra)
qed

subsection \<open>FIFO\<close>

lemma fifo_step_inv:
  assumes "fifo_inv s"
  shows "\<exists>s'. fifo_step s p = Inr s' \<and> fifo_inv s' \<and> step_ok s p s'"
proof (cases "p \<in> set (memory s)")
  case True
  with assms show ?thesis
    by (simp add: fifo_step_def is_page_in_memory_def record_page_hit_def fifo_inv_def
        base_inv_def step_ok_def)
next
  case False
  show ?thesis
  proof (cases "int (length (memory s)) = frames s")
    case full: True
    then obtain q qs where m: "memory s = q # qs"
      using assms by (cases "memory s") (auto simp: fifo_inv_def base_inv_def)
    with assms False full show ?thesis
      by (auto simp: fifo_step_def is_page_in_memory_def record_page_fault_def fifo_inv_def
          base_inv_def step_ok_def list_remove_def)
  next
    case notfull: False
    with assms False show ?thesis
      by (auto simp: fifo_step_def is_page_in_memory_def record_page_fault_def fifo_inv_def
          base_inv_def step_ok_def)
  qed
qed

lemma fifo_loop_run:
  assumes "fifo_inv s"
  shows "\<exists>s' f. fifo_loop s fl c ps = Inr (s', fl @ f) \<and> fifo_inv s' \<and> run_ok s ps s' f"
  using assms
proof (induction ps arbitrary: s fl c)
  case Nil
  then show ?case by (simp add: run_ok_Nil)
next
  case (Cons p ps)
  from fifo_step_inv [OF Cons.prems] obtain s1 where
    s1: "fifo_step s p = Inr s1" "fifo_inv s1" "step_ok s p s1" by blast
  from Cons.IH [OF s1(2)] obtain s' f where
    r: "fifo_loop s1 (fl @ [(c, ''FIFO'', memory s1)]) (c + 1) ps
          = Inr (s', (fl @ [(c, ''FIFO'', memory s1)]) @ f)"
       "fifo_inv s'" "run_ok s1 ps s' f" by blast
  have "run_ok s (p # ps) s' ((c, ''FIFO'', memory s1) # f)"
    using Cons.prems s1(2,3) r(3) by (intro run_ok_Cons) (simp_all add: fifo_inv_def)
  with s1(1) r(1,2) show ?case by auto
qed

subsection \<open>LRU\<close>

lemma min_key_from_mem: "min_key_from k v d \<in> insert k (fst ` set d)"
proof (induction d arbitrary: k v)
  case Nil
  show ?case by simp
next
  case (Cons a d)
  obtain k' v' where a: "a = (k', v')"
    by (cases a)
  show ?case
    using Cons.IH [of k' v'] Cons.IH [of k v] by (auto simp: a)
qed

lemma dom_delete: "fst ` set (AList.delete k d) = fst ` set d - {k}"
  by (induction d) auto

lemma min_key_mem:
  assumes "d \<noteq> []"
  shows "\<exists>k. min_key d = Inr k \<and> k \<in> fst ` set d"
proof -
  from assms obtain k v d' where d: "d = (k, v) # d'"
    by (cases d) auto
  have "min_key_from k v d' \<in> insert k (fst ` set d')"
    by (rule min_key_from_mem)
  then show ?thesis
    by (simp add: d min_key_def)
qed

lemma dict_del_key:
  assumes "k \<in> fst ` set d"
  shows "dict_del d k = Inr (AList.delete k d)"
proof -
  have "map_of d k \<noteq> None"
    using assms by (simp add: map_of_eq_None_iff)
  then show ?thesis
    by (auto simp: dict_del_def)
qed

lemma lru_step_inv:
  assumes "lru_inv s"
  shows "\<exists>s'. lru_step s t p = Inr s' \<and> lru_inv s' \<and> step_ok s p s'"
proof (cases "p \<in> set (memory s)")
  case True
  with assms show ?thesis
    by (auto simp: lru_step_def is_page_in_memory_def record_page_hit_def lru_inv_def
        base_inv_def step_ok_def dom_update)
next
  case False
  have b: "base_inv s" and keys: "fst ` set (page_time s) = set (memory s)"
    using assms by (simp_all add: lru_inv_def)
  show ?thesis
  proof (cases "int (length (memory s)) = frames s")
    case full: True
    have "page_time s \<noteq> []"
      using full_memory_nonempty [OF b full] keys by auto
    then obtain v where v: "min_key (page_time s) = Inr v" "v \<in> fst ` set (page_time s)"
      using min_key_mem by blast
    have vm: "v \<in> set (memory s)"
      using v(2) keys by simp
    have del: "dict_del (page_time s) v = Inr (AList.delete v (page_time s))"
      using v(2) by (rule dict_del_key)
    let ?s' = "s\<lparr>page_faults := page_faults s + 1, memory := remove1 v (memory s) @ [p],
                replacements := replacements s + 1,
                page_time := AList.update p t (AList.delete v (page_time s))\<rparr>"
    have eq: "lru_step s t p = Inr ?s'"
      using False full v(1) vm del
      by (simp add: lru_step_def is_page_in_memory_def record_page_fault_def list_remove_def)
    have "base_inv (s\<lparr>page_faults := page_faults s + 1, memory := remove1 v (memory s) @ [p],
                replacements := replacements s + 1\<rparr>)"
      using b full vm False by (rule base_inv_replace)
    then have b': "base_inv ?s'"
      by (simp add: base_inv_def)
    have "distinct (memory s)"
      using b by (simp add: base_inv_def)
    then have "set (remove1 v (memory s)) = set (memory s) - {v}"
      by (rule set_remove1_eq)
    then have keys': "fst ` set (page_time ?s') = set (memory ?s')"
      using keys by (simp add: dom_update dom_delete)
    have "step_ok s p ?s'"
      using False by (simp add: step_ok_def)
    with eq b' keys' show ?thesis
      unfolding lru_inv_def by blast
  next
    case notfull: False
    let ?s' = "s\<lparr>page_faults := page_faults s + 1, memory := memory s @ [p],
                page_time := AList.update p t (page_time s)\<rparr>"
    have eq: "lru_step s t p = Inr ?s'"
      using False notfull
      by (simp add: lru_step_def is_page_in_memory_def record_page_fault_def)
    have "base_inv (s\<lparr>page_faults := page_faults s + 1, memory := memory s @ [p]\<rparr>)"
      using b notfull False by (rule base_inv_append)
    then have b': "base_inv ?s'"
      by (simp add: base_inv_def)
    have keys': "fst ` set (page_time ?s') = set (memory ?s')"
      using keys by (simp add: dom_update)
    have "step_ok s p ?s'"
      using False by (simp add: step_ok_def)
    with eq b' keys' show ?thesis
      unfolding lru_inv_def by blast
  qed
qed

lemma lru_loop_run:
  assumes "lru_inv s"
  shows "\<exists>s' f. lru_loop s fl t ps = Inr (s', fl @ f) \<and> lru_inv s' \<and> run_ok s ps s' f"
  using assms
proof (induction ps arbitrary: s fl t)
  case Nil
  then show ?case by (simp add: run_ok_Nil)
next
  case (Cons p ps)
  from lru_step_inv [OF Cons.prems] obtain s1 where
    s1: "lru_step s t p = Inr s1" "lru_inv s1" "step_ok s p s1" by blast
  from Cons.IH [OF s1(2)] obtain s' f where
    r: "lru_loop s1 (fl @ [(t + 1, ''LRU'', memory s1)]) (t + 1) ps
          = Inr (s', (fl @ [(t + 1, ''LRU'', memory s1)]) @ f)"
       "lru_inv s'" "run_ok s1 ps s' f" by blast
  have "run_ok s (p # ps) s' ((t + 1, ''LRU'', memory s1) # f)"
    using Cons.prems s1(2,3) r(3) by (intro run_ok_Cons) (simp_all add: lru_inv_def)
  with s1(1) r(1,2) show ?case by auto
qed

subsection \<open>OPT\<close>

lemma longest_unused_scan_absent:
  assumes "\<exists>p\<in>set mem. p \<notin> set fut"
  shows "\<exists>v. longest_unused_scan mem fut lu ptr = Some v \<and> v \<in> set mem \<and> v \<notin> set fut"
  using assms by (induction mem arbitrary: lu ptr) (auto simp: Let_def)

lemma longest_unused_scan_present:
  assumes "set mem \<subseteq> set fut"
  shows "(longest_unused_scan mem fut lu ptr = ptr \<and>
          (\<forall>p\<in>set mem. int (index_of fut p) \<le> lu)) \<or>
         (\<exists>v\<in>set mem. longest_unused_scan mem fut lu ptr = Some v \<and>
            lu < int (index_of fut v) \<and>
            (\<forall>p\<in>set mem. index_of fut p \<le> index_of fut v))"
  using assms
proof (induction mem arbitrary: lu ptr)
  case Nil
  show ?case by simp
next
  case (Cons p mem)
  have sub: "set mem \<subseteq> set fut" and p: "p \<in> set fut"
    using Cons.prems by simp_all
  show ?case
  proof (cases "lu < int (index_of fut p)")
    case True
    from Cons.IH [OF sub, of "int (index_of fut p)" "Some p"] True p show ?thesis
      by (auto simp: Let_def)
  next
    case False
    from Cons.IH [OF sub, of lu ptr] False p show ?thesis
      by (auto simp: Let_def)
  qed
qed

lemma find_longest_unused_page_mem:
  assumes "memory s \<noteq> []"
  shows "\<exists>v. find_longest_unused_page s fut = Some v \<and> v \<in> set (memory s) \<and>
           (if \<exists>p\<in>set (memory s). p \<notin> set fut then v \<notin> set fut
            else \<forall>p\<in>set (memory s). index_of fut p \<le> index_of fut v)"
proof (cases "\<exists>p\<in>set (memory s). p \<notin> set fut")
  case True
  with longest_unused_scan_absent [OF True, of "- 1" None] show ?thesis
    by (auto simp: find_longest_unused_page_def)
next
  case False
  then have sub: "set (memory s) \<subseteq> set fut" by auto
  from assms obtain q where q: "q \<in> set (memory s)"
    by (cases "memory s") auto
  have "\<not> (\<forall>p\<in>set (memory s). int (index_of fut p) \<le> - 1)"
    using q by force
  with longest_unused_scan_present [OF sub, of "- 1" None] False show ?thesis
    by (auto simp: find_longest_unused_page_def)
qed

lemma opt_step_inv:
  assumes "base_inv s"
  shows "\<exists>s'. opt_step s p fut = Inr s' \<and> base_inv s' \<and> step_ok s p s'"
proof (cases "p \<in> set (memory s)")
  case True
  with assms show ?thesis
    by (auto simp: opt_step_def is_page_in_memory_def record_page_hit_def
        base_inv_def step_ok_def)
next
  case False
  show ?thesis
  proof (cases "int (length (memory s)) = frames s")
    case full: True
    have ne: "memory (record_page_fault s) \<noteq> []"
      using full_memory_nonempty [OF assms full] by (simp add: record_page_fault_def)
    from find_longest_unused_page_mem [OF ne, of fut] obtain v where
      v: "find_longest_unused_page (record_page_fault s) fut = Some v" "v \<in> set (memory s)"
      by (auto simp: record_page_fault_def)
    let ?s' = "s\<lparr>page_faults := page_faults s + 1, memory := remove1 v (memory s) @ [p],
                replacements := replacements s + 1\<rparr>"
    have eq: "opt_step s p fut = Inr ?s'"
      using False full v
      by (simp add: opt_step_def is_page_in_memory_def list_remove_def Let_def)
         (simp add: record_page_fault_def)
    have b': "base_inv ?s'"
      using assms full v(2) False by (rule base_inv_replace)
    have "step_ok s p ?s'"
      using False by (simp add: step_ok_def)
    with eq b' show ?thesis by blast
  next
    case notfull: False
    let ?s' = "s\<lparr>page_faults := page_faults s + 1, memory := memory s @ [p]\<rparr>"
    have eq: "opt_step s p fut = Inr ?s'"
      using False notfull
      by (simp add: opt_step_def is_page_in_memory_def record_page_fault_def)
    have b': "base_inv ?s'"
      using assms notfull False by (rule base_inv_append)
    have "step_ok s p ?s'"
      using False by (simp add: step_ok_def)
    with eq b' show ?thesis by blast
  qed
qed

lemma opt_loop_run:
  assumes "base_inv s"
  shows "\<exists>s' f. opt_loop s fl c ps = Inr (s', fl @ f) \<and> base_inv s' \<and> run_ok s ps s' f"
  using assms
proof (induction ps arbitrary: s fl c)
  case Nil
  then show ?case by (simp add: run_ok_Nil)
next
  case (Cons p ps)
  from opt_step_inv [OF Cons.prems] obtain s1 where
    s1: "opt_step s p ps = Inr s1" "base_inv s1" "step_ok s p s1" by blast
  from Cons.IH [OF s1(2)] obtain s' f where
    r: "opt_loop s1 (fl @ [(c, ''OPT'', memory s1)]) (c + 1) ps
          = Inr (s', (fl @ [(c, ''OPT'', memory s1)]) @ f)"
       "base_inv s'" "run_ok s1 ps s' f" by blast
  have "run_ok s (p # ps) s' ((c, ''OPT'', memory s1) # f)"
    using Cons.prems s1(2,3) r(3) by (rule run_ok_Cons)
  with s1(1) r(1,2) show ?case by auto
qed

subsection \<open>LFU\<close>

lemma find_first:
  assumes "\<exists>x\<in>set xs. P x"
  shows "\<exists>v pre post. find P xs = Some v \<and> xs = pre @ v # post \<and> P v \<and> (\<forall>q\<in>set pre. \<not> P q)"
  using assms
proof (induction xs)
  case Nil
  then show ?case by simp
next
  case (Cons x xs)
  show ?case
  proof (cases "P x")
    case True
    then have "find P (x # xs) = Some x \<and> x # xs = [] @ x # xs \<and> P x \<and> (\<forall>q\<in>set []. \<not> P q)"
      by simp
    then show ?thesis by blast
  next
    case False
    with Cons.prems have "\<exists>y\<in>set xs. P y" by auto
    from Cons.IH [OF this] obtain v pre post where
      "find P xs = Some v" "xs = pre @ v # post" "P v" "\<forall>q\<in>set pre. \<not> P q" by blast
    with False have "find P (x # xs) = Some v \<and> x # xs = (x # pre) @ v # post \<and> P v \<and>
        (\<forall>q\<in>set (x # pre). \<not> P q)"
      by simp
    then show ?thesis by blast
  qed
qed

lemma min_value_least:
  assumes "d \<noteq> []"
  shows "\<exists>least. min_value d = Inr least \<and> least \<in> snd ` set d \<and> (\<forall>f\<in>snd ` set d. least \<le> f)"
proof -
  have ne: "map snd d \<noteq> []"
    using assms by simp
  have m: "min_list (map snd d) = Min (set (map snd d))"
    using ne by (rule min_list_Min)
  have "Min (set (map snd d)) \<in> set (map snd d)"
    using ne by (intro Min_in) simp_all
  moreover have "\<forall>f\<in>set (map snd d). Min (set (map snd d)) \<le> f"
    by simp
  ultimately show ?thesis
    using assms m by (simp add: min_value_def)
qed

lemma find_least_frequent_page_first:
  assumes "memory s \<noteq> []" and "fst ` set (page_frequency s) = set (memory s)"
    and "distinct (map fst (page_frequency s))"
  shows "\<exists>v least pre post.
           find_least_frequent_page s = Inr (Some v) \<and>
           memory s = pre @ v # post \<and>
           map_of (page_frequency s) v = Some least \<and>
           (\<forall>q\<in>set (memory s). \<exists>f. map_of (page_frequency s) q = Some f \<and> least \<le> f) \<and>
           (\<forall>q\<in>set pre. map_of (page_frequency s) q \<noteq> Some least)"
proof -
  let ?d = "page_frequency s"
  have ne: "?d \<noteq> []"
    using assms(1,2) by auto
  from min_value_least [OF ne] obtain least where
    least: "min_value ?d = Inr least" "least \<in> snd ` set ?d" "\<forall>f\<in>snd ` set ?d. least \<le> f"
    by blast
  let ?lfp = "filter (\<lambda>page. map_of ?d page = Some least) (map fst ?d)"
  have lfp: "\<And>q. q \<in> set ?lfp \<longleftrightarrow> map_of ?d q = Some least"
    using assms(3) by (auto simp: image_iff) force
  from least(2) obtain k where "(k, least) \<in> set ?d"
    by auto
  then have "map_of ?d k = Some least" and "k \<in> set (memory s)"
    using assms(2,3) by (auto simp: image_iff) force
  then have "\<exists>x\<in>set (memory s). x \<in> set ?lfp"
    using lfp by blast
  from find_first [OF this] obtain v pre post where
    v: "find (\<lambda>page. page \<in> set ?lfp) (memory s) = Some v" "memory s = pre @ v # post"
       "v \<in> set ?lfp" "\<forall>q\<in>set pre. q \<notin> set ?lfp" by blast
  have eq: "find_least_frequent_page s = Inr (Some v)"
    using least(1) v(1) by (simp add: find_least_frequent_page_def)
  have all: "\<forall>q\<in>set (memory s). \<exists>f. map_of ?d q = Some f \<and> least \<le> f"
  proof
    fix q assume "q \<in> set (memory s)"
    then have "q \<in> fst ` set ?d"
      using assms(2) by simp
    then obtain f where f: "(q, f) \<in> set ?d"
      by auto
    then have "map_of ?d q = Some f"
      using assms(3) by simp
    moreover have "least \<le> f"
      using least(3) f by force
    ultimately show "\<exists>f. map_of ?d q = Some f \<and> least \<le> f"
      by blast
  qed
  show ?thesis
    using eq v(2,3,4) all lfp by blast
qed

lemma lfu_step_inv:
  assumes "lfu_inv s"
  shows "\<exists>s'. lfu_step s p = Inr s' \<and> lfu_inv s' \<and> step_ok s p s'"
proof -
  have b: "base_inv s" and keys: "fst ` set (page_frequency s) = set (memory s)"
    and dist: "distinct (map fst (page_frequency s))"
    using assms by (simp_all add: lfu_inv_def)
  show ?thesis
  proof (cases "p \<in> set (memory s)")
    case True
    then have "p \<in> fst ` set (page_frequency s)"
      using keys by simp
    then obtain f where f: "map_of (page_frequency s) p = Some f"
      using dist by (auto simp: image_iff)
    let ?s' = "s\<lparr>page_hits := page_hits s + 1,
                page_frequency := AList.update p (f + 1) (page_frequency s)\<rparr>"
    have eq: "lfu_step s p = Inr ?s'"
      using True f by (simp add: lfu_step_def is_page_in_memory_def record_page_hit_def)
    have "lfu_inv ?s'"
      using b keys dist True by (auto simp: lfu_inv_def base_inv_def dom_update distinct_update)
    moreover have "step_ok s p ?s'"
      using True by (simp add: step_ok_def)
    ultimately show ?thesis
      using eq by blast
  next
    case False
    show ?thesis
    proof (cases "int (length (memory s)) = frames s")
      case full: True
      let ?s1 = "record_page_fault s"
      have ne: "memory ?s1 \<noteq> []"
        using full_memory_nonempty [OF b full] by (simp add: record_page_fault_def)
      have k1: "fst ` set (page_frequency ?s1) = set (memory ?s1)"
        and d1: "distinct (map fst (page_frequency ?s1))"
        using keys dist by (simp_all add: record_page_fault_def)
      from find_least_frequent_page_first [OF ne k1 d1] obtain v where
        v: "find_least_frequent_page ?s1 = Inr (Some v)" "v \<in> set (memory s)"
        by (auto simp: record_page_fault_def)
      have del: "dict_del (page_frequency s) v = Inr (AList.delete v (page_frequency s))"
        using v(2) keys by (intro dict_del_key) simp
      let ?s' = "s\<lparr>page_faults := page_faults s + 1, memory := remove1 v (memory s) @ [p],
                  replacements := replacements s + 1,
                  page_frequency := AList.update p 1 (AList.delete v (page_frequency s))\<rparr>"
      have eq: "lfu_step s p = Inr ?s'"
        using False full v del
        by (simp add: lfu_step_def is_page_in_memory_def list_remove_def Let_def)
           (simp add: record_page_fault_def)
      have "base_inv (s\<lparr>page_faults := page_faults s + 1,
                memory := remove1 v (memory s) @ [p], replacements := replacements s + 1\<rparr>)"
        using b full v(2) False by (rule base_inv_replace)
      then have b': "base_inv ?s'"
        by (simp add: base_inv_def)
      have "distinct (memory s)"
        using b by (simp add: base_inv_def)
      then have "set (remove1 v (memory s)) = set (memory s) - {v}"
        by (rule set_remove1_eq)
      then have keys': "fst ` set (page_frequency ?s') = set (memory ?s')"
        using keys by (simp add: dom_update dom_delete)
      have dist': "distinct (map fst (page_frequency ?s'))"
        using dist by (simp add: distinct_update distinct_delete)
      have "step_ok s p ?s'"
        using False by (simp add: step_ok_def)
      with eq b' keys' dist' show ?thesis
        unfolding lfu_inv_def by blast
    next
      case notfull: False
      let ?s' = "s\<lparr>page_faults := page_faults s + 1, memory := memory s @ [p],
                  page_frequency := AList.update p 1 (page_frequency s)\<rparr>"
      have eq: "lfu_step s p = Inr ?s'"
        using False notfull
        by (simp add: lfu_step_def is_page_in_memory_def record_page_fault_def)
      have "base_inv (s\<lparr>page_faults := page_faults s + 1, memory := memory s @ [p]\<rparr>)"
        using b notfull False by (rule base_inv_append)
      then have b': "base_inv ?s'"
        by (simp add: base_inv_def)
      have keys': "fst ` set (page_frequency ?s') = set (memory ?s')"
        using keys by (simp add: dom_update)
      have dist': "distinct (map fst (page_frequency ?s'))"
        using dist by (simp add: distinct_update)
      have "step_ok s p ?s'"
        using False by (simp add: step_ok_def)
      with eq b' keys' dist' show ?thesis
        unfolding lfu_inv_def by blast
    qed
  qed
qed

lemma lfu_loop_run:
  assumes "lfu_inv s"
  shows "\<exists>s' f. lfu_loop s fl c ps = Inr (s', fl @ f) \<and> lfu_inv s' \<and> run_ok s ps s' f"
  using assms
proof (induction ps arbitrary: s fl c)
  case Nil
  then show ?case by (simp add: run_ok_Nil)
next
  case (Cons p ps)
  from lfu_step_inv [OF Cons.prems] obtain s1 where
    s1: "lfu_step s p = Inr s1" "lfu_inv s1" "step_ok s p s1" by blast
  from Cons.IH [OF s1(2)] obtain s' f where
    r: "lfu_loop s1 (fl @ [(c, ''LFU'', memory s1)]) (c + 1) ps
          = Inr (s', (fl @ [(c, ''LFU'', memory s1)]) @ f)"
       "lfu_inv s'" "run_ok s1 ps s' f" by blast
  have "run_ok s (p # ps) s' ((c, ''LFU'', memory s1) # f)"
    using Cons.prems s1(2,3) r(3) by (intro run_ok_Cons) (simp_all add: lfu_inv_def)
  with s1(1) r(1,2) show ?case by auto
qed

lemma LFU_simulate_inv:
  assumes "1 \<le> n" and "LFU_simulate (LFU_init n) ps fl = Inr (s, f)"
  shows "lfu_inv s"
proof -
  have "lfu_inv (LFU_init n)"
    using assms(1) by (simp add: lfu_inv_def base_inv_def LFU_init_def)
  from lfu_loop_run [OF this, of fl 1 ps] obtain s' f' where
    "lfu_loop (LFU_init n) fl 1 ps = Inr (s', fl @ f')" "lfu_inv s'" by blast
  with assms(2) show ?thesis
    by (simp add: LFU_simulate_def)
qed

subsection \<open>SimpleCLOCK\<close>

lemma bits_on_upd: "bits_on n ub \<Longrightarrow> bits_on n (ub(k \<mapsto> b))"
  by (simp add: bits_on_def)

lemma sc_sweep_ok:
  assumes "1 \<le> n" and "0 \<le> h" and "h < n" and "bits_on n ub"
  shows "\<exists>ub' h'. sc_sweep n ub h = Inr (ub', h') \<and> 0 \<le> h' \<and> h' < n \<and> bits_on n ub'"
  using assms
proof (induction n ub h rule: sc_sweep.induct)
  case (1 n ub h)
  from "1.prems" obtain b where b: "ub h = Some b"
    by (auto simp: bits_on_def)
  show ?case
  proof (cases b)
    case True
    have n0: "n \<noteq> 0" using "1.prems"(1) by simp
    have "0 \<le> (h + 1) mod n" and "(h + 1) mod n < n"
      using "1.prems"(1) by simp_all
    moreover have "bits_on n (ub(h \<mapsto> False))"
      using "1.prems"(4) by (rule bits_on_upd)
    ultimately have "\<exists>ub' h'. sc_sweep n (ub(h \<mapsto> False)) ((h + 1) mod n) = Inr (ub', h') \<and>
        0 \<le> h' \<and> h' < n \<and> bits_on n ub'"
      using "1.IH" [OF b True n0 "1.prems"(1)] by blast
    moreover have "sc_sweep n ub h = sc_sweep n (ub(h \<mapsto> False)) ((h + 1) mod n)"
      using b True n0 by (subst sc_sweep.simps) simp
    ultimately show ?thesis by simp
  next
    case False
    then have "sc_sweep n ub h = Inr (ub, h)"
      using b by (subst sc_sweep.simps) simp
    with "1.prems" show ?thesis by simp
  qed
qed

lemma sc_step_inv:
  assumes "sc_inv s"
  shows "\<exists>s'. sc_step s p = Inr s' \<and> sc_inv s' \<and> step_ok s p s'"
proof -
  have b: "base_inv s" and h: "0 \<le> hand s" "hand s < frames s"
    and bits: "bits_on (frames s) (use_bit s)"
    using assms by (simp_all add: sc_inv_def)
  have n1: "1 \<le> frames s"
    using b by (simp add: base_inv_def)
  show ?thesis
  proof (cases "p \<in> set (memory s)")
    case True
    let ?s' = "s\<lparr>page_hits := page_hits s + 1,
                use_bit := (use_bit s)(int (index_of (memory s) p) \<mapsto> True)\<rparr>"
    have eq: "sc_step s p = Inr ?s'"
      using True by (simp add: sc_step_def is_page_in_memory_def record_page_hit_def Let_def)
    have "sc_inv ?s'"
      using b h bits by (simp add: sc_inv_def base_inv_def bits_on_upd)
    moreover have "step_ok s p ?s'"
      using True by (simp add: step_ok_def)
    ultimately show ?thesis
      using eq by blast
  next
    case False
    from sc_sweep_ok [OF n1 h bits] obtain ub' h' where
      sw: "sc_sweep (frames s) (use_bit s) (hand s) = Inr (ub', h')"
      and h': "0 \<le> h'" "h' < frames s" and bits': "bits_on (frames s) ub'"
      by blast
    show ?thesis
    proof (cases "int (length (memory s)) = frames s")
      case full: True
      have set_ok: "list_setitem (memory s) h' p = Inr ((memory s)[nat h' := p])"
        using h' full by (intro list_setitem_in_range) simp_all
      let ?s' = "s\<lparr>page_faults := page_faults s + 1, memory := (memory s)[nat h' := p],
                  replacements := replacements s + 1, use_bit := ub'(h' \<mapsto> True), hand := h'\<rparr>"
      have eq: "sc_step s p = Inr ?s'"
        using False full sw set_ok
        by (simp add: sc_step_def is_page_in_memory_def record_page_fault_def Let_def)
      have "base_inv (s\<lparr>page_faults := page_faults s + 1, memory := (memory s)[nat h' := p],
                replacements := replacements s + 1\<rparr>)"
        using b full h' False by (rule base_inv_overwrite)
      then have "base_inv ?s'"
        by (simp add: base_inv_def)
      then have inv': "sc_inv ?s'"
        using h' bits' by (simp add: sc_inv_def bits_on_upd)
      have "nat h' < length (memory s)"
        using h' full by simp
      then have "p \<in> set ((memory s)[nat h' := p])"
        by (rule set_update_memI)
      then have "step_ok s p ?s'"
        using False by (simp add: step_ok_def)
      with eq inv' show ?thesis by blast
    next
      case notfull: False
      let ?s' = "s\<lparr>page_faults := page_faults s + 1, memory := memory s @ [p],
                  use_bit := ub'(h' \<mapsto> True), hand := h'\<rparr>"
      have eq: "sc_step s p = Inr ?s'"
        using False notfull sw
        by (simp add: sc_step_def is_page_in_memory_def record_page_fault_def Let_def)
      have "base_inv (s\<lparr>page_faults := page_faults s + 1, memory := memory s @ [p]\<rparr>)"
        using b notfull False by (rule base_inv_append)
      then have "base_inv ?s'"
        by (simp add: base_inv_def)
      then have inv': "sc_inv ?s'"
        using h' bits' by (simp add: sc_inv_def bits_on_upd)
      have "step_ok s p ?s'"
        using False by (simp add: step_ok_def)
      with eq inv' show ?thesis by blast
    qed
  qed
qed

lemma sc_loop_run:
  assumes "sc_inv s"
  shows "\<exists>s' f. sc_loop s fl c ps = Inr (s', fl @ f) \<and> sc_inv s' \<and> run_ok s ps s' f"
  using assms
proof (induction ps arbitrary: s fl c)
  case Nil
  then show ?case by (simp add: run_ok_Nil)
next
  case (Cons p ps)
  from sc_step_inv [OF Cons.prems] obtain s1 where
    s1: "sc_step s p = Inr s1" "sc_inv s1" "step_ok s p s1" by blast
  from Cons.IH [OF s1(2)] obtain s' f where
    r: "sc_loop s1 (fl @ [(c, ''SimpleCLOCK'', memory s1)]) (c + 1) ps
          = Inr (s', (fl @ [(c, ''SimpleCLOCK'', memory s1)]) @ f)"
       "sc_inv s'" "run_ok s1 ps s' f" by blast
  have "run_ok s (p # ps) s' ((c, ''SimpleCLOCK'', memory s1) # f)"
    using Cons.prems s1(2,3) r(3) by (intro run_ok_Cons) (simp_all add: sc_inv_def)
  with s1(1) r(1,2) show ?case by auto
qed

subsection \<open>EnhancedCLOCK\<close>

lemma mods_clear_upd: "mods_clear n mb \<Longrightarrow> mods_clear n (mb(k \<mapsto> False))"
  by (simp add: mods_clear_def)

lemma ec_replace_places:
  assumes "clock_ready s"
  shows "\<exists>s'. ec_replace s p = Some (Inr s') \<and> placed s p s'"
  using assms
proof (induction "frames s" "use_bit s" "hand s" arbitrary: s rule: sc_sweep.induct)
  case 1
  have n1: "1 \<le> frames s" and len: "int (length (memory s)) \<le> frames s"
    and h: "0 \<le> hand s" "hand s < frames s"
    and bits: "bits_on (frames s) (use_bit s)" and mods: "mods_clear (frames s) (modify_bit s)"
    using "1.prems" by (simp_all add: clock_ready_def)
  from bits h obtain u where u: "use_bit s (hand s) = Some u"
    by (auto simp: bits_on_def)
  have m: "modify_bit s (hand s) = Some False"
    using mods h by (simp add: mods_clear_def)
  have hn: "0 \<le> (hand s + 1) mod frames s" "(hand s + 1) mod frames s < frames s"
    using n1 by simp_all
  show ?case
  proof (cases u)
    case False
    have free: "slot_free s = Inr True"
      using u m False by (simp add: slot_free_def)
    show ?thesis
    proof (cases "int (length (memory s)) = frames s")
      case full: True
      have set_ok: "list_setitem (memory s) (hand s) p = Inr ((memory s)[nat (hand s) := p])"
        using h full by (intro list_setitem_in_range) simp_all
      let ?s' = "s\<lparr>memory := (memory s)[nat (hand s) := p],
                  replacements := replacements s + 1,
                  modify_bit := (modify_bit s)(hand s \<mapsto> False),
                  hand := (hand s + 1) mod frames s\<rparr>"
      have eq: "ec_replace s p = Some (Inr ?s')"
        using free full set_ok n1
        by (subst ec_replace.simps) (simp add: ec_place_def advance_hand_def)
      have "clock_ready ?s'"
        using n1 len hn bits mods by (simp add: clock_ready_def mods_clear_upd)
      then have "placed s p ?s'"
        using full h by (auto simp: placed_def)
      with eq show ?thesis by blast
    next
      case notfull: False
      let ?s' = "s\<lparr>memory := memory s @ [p],
                  modify_bit := (modify_bit s)(hand s \<mapsto> False),
                  hand := (hand s + 1) mod frames s\<rparr>"
      have eq: "ec_replace s p = Some (Inr ?s')"
        using free notfull n1
        by (subst ec_replace.simps) (simp add: ec_place_def advance_hand_def)
      have "clock_ready ?s'"
        using n1 len notfull hn bits mods by (simp add: clock_ready_def mods_clear_upd)
      then have "placed s p ?s'"
        using notfull by (simp add: placed_def)
      with eq show ?thesis by blast
    qed
  next
    case True
    have busy: "slot_free s = Inr False"
      using u True by (simp add: slot_free_def)
    let ?s1 = "s\<lparr>use_bit := (use_bit s)(hand s \<mapsto> False), hand := (hand s + 1) mod frames s\<rparr>"
    have eq: "ec_replace s p = ec_replace ?s1 p"
      using busy n1 by (subst ec_replace.simps) (simp add: advance_hand_def)
    have n0: "frames s \<noteq> 0"
      using n1 by simp
    have ready1: "clock_ready ?s1"
      using n1 len hn bits mods by (simp add: clock_ready_def bits_on_upd)
    from "1.hyps" [OF u True n0, of ?s1] ready1 obtain s' where
      s': "ec_replace ?s1 p = Some (Inr s')" "placed ?s1 p s'" by auto
    have "placed s p s'"
      using s'(2) by (auto simp: placed_def split: if_splits)
    with eq s'(1) show ?thesis by simp
  qed
qed

lemma ec_replace_modify_bit:
  assumes "ec_replace s p = Some r"
  shows "r = Inr s' \<longrightarrow> modify_bit s' k = Some True \<longrightarrow> modify_bit s k = Some True"
proof (induction s p r rule: ec_replace.raw_induct)
  case (1 rec s p r)
  show ?case
  proof (intro impI)
    assume r: "r = Inr s'" and k: "modify_bit s' k = Some True"
    from "1.hyps" obtain free where free: "slot_free s = Inr free"
      unfolding r by (cases "slot_free s") auto
    show "modify_bit s k = Some True"
    proof (cases free)
      case True
      with "1.hyps" free obtain s1 where
        "ec_place s p = Inr s1" and "advance_hand s1 = Inr s'"
        unfolding r by (cases "ec_place s p") auto
      then have "modify_bit s' = (modify_bit s)(hand s \<mapsto> False)"
        by (auto simp: ec_place_def advance_hand_def split: if_splits sum.splits)
      with k show ?thesis
        by (simp split: if_splits)
    next
      case False
      let ?s0 = "s\<lparr>use_bit := (use_bit s)(hand s \<mapsto> False)\<rparr>"
      from "1.hyps" free False obtain s1 where
        s1: "advance_hand ?s0 = Inr s1" and rec: "rec s1 p = Some r"
        using r by (cases "advance_hand ?s0") auto
      have "modify_bit s1 = modify_bit s"
        using s1 by (auto simp: advance_hand_def split: if_splits)
      with "1.IH" [OF rec] r k show ?thesis
        by simp
    qed
  qed
qed (fact assms)

lemma ec_replace_sets_no_modify_bit:
  assumes "ec_replace s p = Some (Inr s')" and "modify_bit s' k = Some True"
  shows "modify_bit s k = Some True"
  using ec_replace_modify_bit [OF assms(1), of s' k] assms(2) by simp

lemma ec_step_sets_no_modify_bit:
  assumes "ec_step s p = Some (Inr s')" and "modify_bit s' k = Some True"
  shows "modify_bit s k = Some True"
proof (cases "p \<in> set (memory s)")
  case True
  with assms show ?thesis
    by (auto simp: ec_step_def is_page_in_memory_def record_page_hit_def Let_def)
next
  case False
  with assms(1) obtain s1 where
    s1: "ec_replace (record_page_fault s) p = Some (Inr s1)"
    and s': "s' = s1\<lparr>use_bit := (use_bit s1)(hand s1 \<mapsto> True)\<rparr>"
    by (auto simp: ec_step_def is_page_in_memory_def split: option.splits sum.splits)
  have "modify_bit s1 k = Some True"
    using assms(2) s' by simp
  with s1 have "modify_bit (record_page_fault s) k = Some True"
    by (rule ec_replace_sets_no_modify_bit)
  then show ?thesis
    by (simp add: record_page_fault_def)
qed

lemma ec_step_inv:
  assumes "ec_inv s"
  shows "\<exists>s'. ec_step s p = Some (Inr s') \<and> ec_inv s' \<and> step_ok s p s'"
proof -
  have b: "base_inv s" and ready: "clock_ready s"
    using assms by (simp_all add: ec_inv_def)
  show ?thesis
  proof (cases "p \<in> set (memory s)")
    case True
    let ?s' = "s\<lparr>page_hits := page_hits s + 1,
                use_bit := (use_bit s)(int (index_of (memory s) p) \<mapsto> True)\<rparr>"
    have eq: "ec_step s p = Some (Inr ?s')"
      using True by (simp add: ec_step_def is_page_in_memory_def record_page_hit_def Let_def)
    have "ec_inv ?s'"
      using b ready by (simp add: ec_inv_def base_inv_def clock_ready_def bits_on_upd)
    moreover have "step_ok s p ?s'"
      using True by (simp add: step_ok_def)
    ultimately show ?thesis
      using eq by blast
  next
    case False
    let ?s0 = "record_page_fault s"
    have ready0: "clock_ready ?s0"
      using ready by (simp add: clock_ready_def record_page_fault_def)
    from ec_replace_places [OF ready0, of p] obtain s1 where
      s1: "ec_replace ?s0 p = Some (Inr s1)" "placed ?s0 p s1" by blast
    let ?s' = "s1\<lparr>use_bit := (use_bit s1)(hand s1 \<mapsto> True)\<rparr>"
    have eq: "ec_step s p = Some (Inr ?s')"
      using False s1(1) by (simp add: ec_step_def is_page_in_memory_def)
    have ready1: "clock_ready s1" and fr: "frames s1 = frames s"
      and pf: "page_faults s1 = page_faults s + 1" and ph: "page_hits s1 = page_hits s"
      using s1(2) by (simp_all add: placed_def record_page_fault_def)
    have ready': "clock_ready ?s'"
      using ready1 by (simp add: clock_ready_def bits_on_upd)
    have mem: "base_inv s1 \<and> p \<in> set (memory s1)"
    proof (cases "int (length (memory s)) = frames s")
      case full: True
      from s1(2) full obtain h where
        h: "0 \<le> h" "h < frames s" "memory s1 = (memory s)[nat h := p]"
        and r: "replacements s1 = replacements s + 1"
        by (auto simp: placed_def record_page_fault_def)
      have "base_inv (s\<lparr>page_faults := page_faults s + 1, memory := (memory s)[nat h := p],
                replacements := replacements s + 1\<rparr>)"
        using b full h(1,2) False by (rule base_inv_overwrite)
      then have "base_inv s1"
        using h(3) r fr pf by (simp add: base_inv_def)
      moreover have "nat h < length (memory s)"
        using h(1,2) full by simp
      then have "p \<in> set ((memory s)[nat h := p])"
        by (rule set_update_memI)
      ultimately show ?thesis
        using h(3) by simp
    next
      case notfull: False
      from s1(2) notfull have m: "memory s1 = memory s @ [p]"
        and r: "replacements s1 = replacements s"
        by (simp_all add: placed_def record_page_fault_def)
      have "base_inv (s\<lparr>page_faults := page_faults s + 1, memory := memory s @ [p]\<rparr>)"
        using b notfull False by (rule base_inv_append)
      then have "base_inv s1"
        using m r fr pf by (simp add: base_inv_def)
      then show ?thesis
        using m by simp
    qed
    have "ec_inv ?s'"
      using mem ready' by (simp add: ec_inv_def base_inv_def)
    moreover have "step_ok s p ?s'"
      using False mem fr pf ph by (simp add: step_ok_def)
    ultimately show ?thesis
      using eq by blast
  qed
qed

lemma ec_loop_run:
  assumes "ec_inv s"
  shows "\<exists>s' f. ec_loop s fl c ps = Some (Inr (s', fl @ f)) \<and> ec_inv s' \<and> run_ok s ps s' f"
  using assms
proof (induction ps arbitrary: s fl c)
  case Nil
  then show ?case by (simp add: run_ok_Nil)
next
  case (Cons p ps)
  from ec_step_inv [OF Cons.prems] obtain s1 where
    s1: "ec_step s p = Some (Inr s1)" "ec_inv s1" "step_ok s p s1" by blast
  from Cons.IH [OF s1(2)] obtain s' f where
    r: "ec_loop s1 (fl @ [(c, ''EnhancedCLOCK'', memory s1)]) (c + 1) ps
          = Some (Inr (s', (fl @ [(c, ''EnhancedCLOCK'', memory s1)]) @ f))"
       "ec_inv s'" "run_ok s1 ps s' f" by blast
  have "run_ok s (p # ps) s' ((c, ''EnhancedCLOCK'', memory s1) # f)"
    using Cons.prems s1(2,3) r(3) by (intro run_ok_Cons) (simp_all add: ec_inv_def)
  with s1(1) r(1,2) show ?case by auto
qed

subsection \<open>Every policy class, and the aggregator\<close>

lemma simulate_class_run:
  assumes "1 \<le> n"
  shows "\<exists>s f. simulate_class alg n ps fl = Some (Inr (s, fl @ f)) \<and> base_inv s \<and>
           run_ok (OPT_init n) ps s f"
proof (cases alg)
  case FIFO
  have "fifo_inv (FIFO_init n)"
    using assms by (simp add: fifo_inv_def base_inv_def FIFO_init_def)
  from fifo_loop_run [OF this, of fl 1 ps] obtain s f where
    r: "fifo_loop (FIFO_init n) fl 1 ps = Inr (s, fl @ f)" "fifo_inv s"
       "run_ok (FIFO_init n) ps s f" by blast
  have "base_of (FIFO_init n) = OPT_init n"
    by (simp add: base_of_def FIFO_init_def OPT_init_def)
  with r(3) have "run_ok (OPT_init n) ps (base_of s) f"
    by (rule run_ok_base_of)
  moreover have "base_inv (base_of s)"
    using r(2) by (simp add: base_inv_base_of fifo_inv_def)
  ultimately show ?thesis
    using FIFO r(1) by (simp add: FIFO_simulate_def finished_def)
next
  case LRU
  have "lru_inv (LRU_init n)"
    using assms by (simp add: lru_inv_def base_inv_def LRU_init_def)
  from lru_loop_run [OF this, of fl 0 ps] obtain s f where
    r: "lru_loop (LRU_init n) fl 0 ps = Inr (s, fl @ f)" "lru_inv s"
       "run_ok (LRU_init n) ps s f" by blast
  have "base_of (LRU_init n) = OPT_init n"
    by (simp add: base_of_def LRU_init_def OPT_init_def)
  with r(3) have "run_ok (OPT_init n) ps (base_of s) f"
    by (rule run_ok_base_of)
  moreover have "base_inv (base_of s)"
    using r(2) by (simp add: base_inv_base_of lru_inv_def)
  ultimately show ?thesis
    using LRU r(1) by (simp add: LRU_simulate_def finished_def)
next
  case OPT
  have "base_inv (OPT_init n)"
    using assms by (simp add: base_inv_def OPT_init_def)
  from opt_loop_run [OF this, of fl 1 ps] obtain s f where
    r: "opt_loop (OPT_init n) fl 1 ps = Inr (s, fl @ f)" "base_inv s"
       "run_ok (OPT_init n) ps s f" by blast
  have "base_of (OPT_init n) = OPT_init n"
    by (simp add: base_of_def OPT_init_def)
  with r(3) have "run_ok (OPT_init n) ps (base_of s) f"
    by (rule run_ok_base_of)
  moreover have "base_inv (base_of s)"
    using r(2) by (simp add: base_inv_base_of)
  ultimately show ?thesis
    using OPT r(1) by (simp add: OPT_simulate_def finished_def)
next
  case LFU
  have "lfu_inv (LFU_init n)"
    using assms by (simp add: lfu_inv_def base_inv_def LFU_init_def)
  from lfu_loop_run [OF this, of fl 1 ps] obtain s f where
    r: "lfu_loop (LFU_init n) fl 1 ps = Inr (s, fl @ f)" "lfu_inv s"
       "run_ok (LFU_init n) ps s f" by blast
  have "base_of (LFU_init n) = OPT_init n"
    by (simp add: base_of_def LFU_init_def OPT_init_def)
  with r(3) have "run_ok (OPT_init n) ps (base_of s) f"
    by (rule run_ok_base_of)
  moreover have "base_inv (base_of s)"
    using r(2) by (simp add: base_inv_base_of lfu_inv_def)
  ultimately show ?thesis
    using LFU r(1) by (simp add: LFU_simulate_def finished_def)
next
  case SimpleCLOCK
  have "sc_inv (SimpleCLOCK_init n)"
    using assms by (simp add: sc_inv_def base_inv_def bits_on_def SimpleCLOCK_init_def)
  from sc_loop_run [OF this, of fl 1 ps] obtain s f where
    r: "sc_loop (SimpleCLOCK_init n) fl 1 ps = Inr (s, fl @ f)" "sc_inv s"
       "run_ok (SimpleCLOCK_init n) ps s f" by blast
  have "base_of (SimpleCLOCK_init n) = OPT_init n"
    by (simp add: base_of_def SimpleCLOCK_init_def OPT_init_def)
  with r(3) have "run_ok (OPT_init n) ps (base_of s) f"
    by (rule run_ok_base_of)
  moreover have "base_inv (base_of s)"
    using r(2) by (simp add: base_inv_base_of sc_inv_def)
  ultimately show ?thesis
    using SimpleCLOCK r(1) by (simp add: SimpleCLOCK_simulate_def finished_def)
next
  case EnhancedCLOCK
  have "ec_inv (EnhancedCLOCK_init n)"
    using assms
    by (simp add: ec_inv_def clock_ready_def base_inv_def bits_on_def mods_clear_def
        EnhancedCLOCK_init_def)
  from ec_loop_run [OF this, of fl 1 ps] obtain s f where
    r: "ec_loop (EnhancedCLOCK_init n) fl 1 ps = Some (Inr (s, fl @ f))" "ec_inv s"
       "run_ok (EnhancedCLOCK_init n) ps s f" by blast
  have "base_of (EnhancedCLOCK_init n) = OPT_init n"
    by (simp add: base_of_def EnhancedCLOCK_init_def OPT_init_def)
  with r(3) have "run_ok (OPT_init n) ps (base_of s) f"
    by (rule run_ok_base_of)
  moreover have "base_inv (base_of s)"
    using r(2) by (simp add: base_inv_base_of ec_inv_def)
  ultimately show ?thesis
    using EnhancedCLOCK r(1) by (simp add: EnhancedCLOCK_simulate_def finished_def)
qed

lemma results_init_entry:
  assumes "\<forall>k v. map_of acc k = Some v \<longrightarrow> v = PyList []"
    and "k \<in> dom (map_of acc) \<or> k \<in> class_name ` set algorithms"
  shows "map_of (fold (\<lambda>alg. AList.update (class_name alg) (PyList [])) algorithms acc) k
           = Some (PyList [])"
  using assms
proof (induction algorithms arbitrary: acc)
  case Nil
  then show ?case by auto
next
  case (Cons a algorithms)
  let ?acc = "AList.update (class_name a) (PyList []) acc"
  have 1: "\<forall>k v. map_of ?acc k = Some v \<longrightarrow> v = PyList []"
    using Cons.prems(1) by (simp add: update_conv')
  have 2: "k \<in> dom (map_of ?acc) \<or> k \<in> class_name ` set algorithms"
    using Cons.prems(2) by (auto simp: update_conv')
  from Cons.IH [OF 1 2] show ?case by simp
qed

lemma append_rate_on_list:
  assumes "map_of results name = Some (PyList xs)"
  shows "append_rate results name key rate = Inl TypeError"
  using assms by (simp add: append_rate_def)

section \<open>Claims\<close>

text \<open>
  C1. The claim is not met by the code: \<^verbatim>\<open>test_page_replacement_algorithms\<close> stores a
  list under every class name and then subscripts that list with
  \<^verbatim>\<open>'page_fault_rates'\<close>. Whenever there is a class to run and the first frame count is
  at least one, the first run completes and the function raises \<^verbatim>\<open>TypeError\<close> instead of
  returning a mapping.
\<close>

theorem aggregator_raises_type_error:
  assumes "algorithms \<noteq> []" and "frame_counts \<noteq> []" and "1 \<le> hd frame_counts"
  shows "test_page_replacement_algorithms algorithms page_sequence frame_counts fl
           = Some (Inl TypeError)"
proof -
  from assms(1) obtain a rest where algs: "algorithms = a # rest"
    by (cases algorithms) auto
  from assms(2,3) obtain n ns where fcs: "frame_counts = n # ns" and n: "1 \<le> n"
    by (cases frame_counts) auto
  let ?results = "fold (\<lambda>alg. AList.update (class_name alg) (PyList [])) algorithms []"
  have entry: "map_of ?results (class_name a) = Some (PyList [])"
    by (rule results_init_entry) (simp_all add: algs)
  from simulate_class_run [OF n, of a page_sequence fl] obtain s f where
    run: "simulate_class a n page_sequence fl = Some (Inr (s, fl @ f))" by blast
  have "test_one a n page_sequence (?results, fl) = Some (Inl TypeError)"
    using run append_rate_on_list [OF entry] by (simp add: test_one_def)
  then have "test_classes algorithms n page_sequence (?results, fl) = Some (Inl TypeError)"
    by (simp add: algs)
  then show ?thesis
    by (simp add: test_page_replacement_algorithms_def fcs)
qed

theorem aggregator_raises_type_error_witness:
  "test_page_replacement_algorithms [FIFO] [1] [1] [] = Some (Inl TypeError)"
  using aggregator_raises_type_error [of "[FIFO]" "[1]" "[1]" "[]"]
  by simp

text \<open>
  C2. As stated the claim fails: \<^verbatim>\<open>simulate\<close> validates nothing. A frame count below one
  is not rejected (FIFO with \<open>-1\<close> frames serves its requests and keeps every page), and an
  empty trace is accepted and runs no step.
\<close>

theorem simulate_rejects_nothing:
  "simulate_class FIFO (- 1) [1, 2] [] =
     Some (Inr (\<lparr>frames = - 1, memory = [1, 2], page_faults = 2, page_hits = 0,
                  replacements = 0\<rparr>,
                [(1, ''FIFO'', [1]), (2, ''FIFO'', [1, 2])])) \<and>
   simulate_class FIFO 3 [] [] =
     Some (Inr (\<lparr>frames = 3, memory = [], page_faults = 0, page_hits = 0,
                  replacements = 0\<rparr>, []))"
  by (simp add: FIFO_simulate_def FIFO_init_def finished_def base_of_def fifo_step_def
      is_page_in_memory_def record_page_fault_def)

text \<open>
  C2, amended. \<^verbatim>\<open>simulate\<close> performs no validation of its own. For each of the six
  policies a run with at least one frame never fails, whatever the trace; an empty trace
  is accepted for any frame count, runs no step and leaves the counters at zero, so that
  the rate getters then raise \<^verbatim>\<open>ZeroDivisionError\<close>.
\<close>

theorem run_with_a_frame_never_fails:
  "(1 \<le> n \<longrightarrow> (\<exists>s f. simulate_class alg n ps fl = Some (Inr (s, fl @ f)))) \<and>
   simulate_class alg n [] fl = Some (Inr (OPT_init n, fl)) \<and>
   get_page_fault_rate (OPT_init n) = Inl ZeroDivisionError \<and>
   get_replacement_rate (OPT_init n) = Inl ZeroDivisionError"
proof -
  have "1 \<le> n \<Longrightarrow> \<exists>s f. simulate_class alg n ps fl = Some (Inr (s, fl @ f))"
    using simulate_class_run [of n alg ps fl] by blast
  moreover have "simulate_class alg n [] fl = Some (Inr (OPT_init n, fl))"
    by (cases alg)
       (simp_all add: FIFO_simulate_def LRU_simulate_def OPT_simulate_def LFU_simulate_def
         SimpleCLOCK_simulate_def EnhancedCLOCK_simulate_def finished_def base_of_def
         FIFO_init_def LRU_init_def OPT_init_def LFU_init_def SimpleCLOCK_init_def
         EnhancedCLOCK_init_def)
  moreover have "get_page_fault_rate (OPT_init n) = Inl ZeroDivisionError"
    "get_replacement_rate (OPT_init n) = Inl ZeroDivisionError"
    by (simp_all add: get_page_fault_rate_def get_replacement_rate_def OPT_init_def)
  ultimately show ?thesis by blast
qed

theorem run_with_a_frame_never_fails_witness:
  "(\<exists>s f. simulate_class EnhancedCLOCK 2 [1, 2, 1, 3, 2, 1] [] = Some (Inr (s, [] @ f))) \<and>
   simulate_class EnhancedCLOCK 2 [] [] = Some (Inr (OPT_init 2, []))"
  using run_with_a_frame_never_fails [of 2 EnhancedCLOCK "[1, 2, 1, 3, 2, 1]" "[]"]
  by simp

text \<open>
  C3. As stated the claim fails: LRU with three frames evicts page 1 at step 4, so after
  the first five requests of the trace it has recorded five faults and no hit.
\<close>

theorem lru_fifth_request_is_no_hit:
  "outcome (simulate_class LRU 3 [1, 2, 3, 4, 1] []) =
     Some (Inr (\<lparr>frames = 3, memory = [3, 4, 1], page_faults = 5, page_hits = 0,
                  replacements = 2\<rparr>,
                [[1], [1, 2], [1, 2, 3], [2, 3, 4], [3, 4, 1]]))"
  by code_simp

text \<open>
  C3, amended. On the trace \<open>[1,2,3,4,1,2,5,1,2,3,4,5]\<close> with three frames, LRU records
  the reference to page 1 at step 5 as a fault: page 1 was evicted at step 4, where the
  resident list became \<open>[2,3,4]\<close>. FIFO has the same outcome at that step; the resident
  lists of the two policies agree up to step 9 and differ from step 10 on.
\<close>

theorem lru_and_fifo_both_fault_at_step_five:
  "outcome (simulate_class LRU 3 [1, 2, 3, 4, 1, 2, 5, 1, 2, 3, 4, 5] []) =
     Some (Inr (\<lparr>frames = 3, memory = [3, 4, 5], page_faults = 10, page_hits = 2,
                  replacements = 7\<rparr>,
                [[1], [1, 2], [1, 2, 3], [2, 3, 4], [3, 4, 1], [4, 1, 2], [1, 2, 5],
                 [1, 2, 5], [1, 2, 5], [1, 2, 3], [2, 3, 4], [3, 4, 5]])) \<and>
   outcome (simulate_class FIFO 3 [1, 2, 3, 4, 1, 2, 5, 1, 2, 3, 4, 5] []) =
     Some (Inr (\<lparr>frames = 3, memory = [5, 3, 4], page_faults = 9, page_hits = 3,
                  replacements = 6\<rparr>,
                [[1], [1, 2], [1, 2, 3], [2, 3, 4], [3, 4, 1], [4, 1, 2], [1, 2, 5],
                 [1, 2, 5], [1, 2, 5], [2, 5, 3], [5, 3, 4], [5, 3, 4]])) \<and>
   outcome (simulate_class LRU 3 [1, 2, 3, 4, 1] []) =
     outcome (simulate_class FIFO 3 [1, 2, 3, 4, 1] []) \<and>
   outcome (simulate_class FIFO 3 [1, 2, 3, 4, 1] []) =
     Some (Inr (\<lparr>frames = 3, memory = [3, 4, 1], page_faults = 5, page_hits = 0,
                  replacements = 2\<rparr>,
                [[1], [1, 2], [1, 2, 3], [2, 3, 4], [3, 4, 1]]))"
  by code_simp

text \<open>
  C4. As stated the claim fails: with two frames on the trace \<open>[1,2,1,3,2,1]\<close> the two
  clock policies hold different pages after step 5 and end with different counts.
\<close>

theorem enhanced_clock_differs_from_simple_clock:
  "outcome (simulate_class SimpleCLOCK 2 [1, 2, 1, 3, 2, 1] []) =
     Some (Inr (\<lparr>frames = 2, memory = [2, 1], page_faults = 5, page_hits = 1,
                  replacements = 3\<rparr>,
                [[1], [1, 2], [1, 2], [1, 3], [2, 3], [2, 1]])) \<and>
   outcome (simulate_class EnhancedCLOCK 2 [1, 2, 1, 3, 2, 1] []) =
     Some (Inr (\<lparr>frames = 2, memory = [1, 2], page_faults = 4, page_hits = 2,
                  replacements = 2\<rparr>,
                [[1], [1, 2], [1, 2], [1, 3], [1, 2], [1, 2]]))"
  by code_simp

text \<open>
  C4, amended. For every trace and every frame count of at least one, the run of
  EnhancedCLOCK completes and no modify bit is set in the state it leaves; more generally
  a request never sets a modify bit, whatever the state \<open>t\<close> it is served in. With one
  frame EnhancedCLOCK and SimpleCLOCK have the same resident list after every request and
  the same fault, hit and replacement counts; with more frames they need not.
\<close>

theorem enhanced_clock_modify_bit_never_set:
  assumes "1 \<le> n"
  shows "(\<exists>s f. EnhancedCLOCK_simulate (EnhancedCLOCK_init n) ps fl = Some (Inr (s, f)) \<and>
            (\<forall>k. modify_bit s k \<noteq> Some True) \<and>
            (n = 1 \<longrightarrow>
               outcome (simulate_class EnhancedCLOCK n ps fl) =
               outcome (simulate_class SimpleCLOCK n ps fl))) \<and>
         (ec_step t p = Some (Inr t') \<and> modify_bit t' k = Some True \<longrightarrow>
            modify_bit t k = Some True)"
proof -
  have "ec_inv (EnhancedCLOCK_init n)"
    using assms
    by (simp add: ec_inv_def clock_ready_def base_inv_def bits_on_def mods_clear_def
        EnhancedCLOCK_init_def)
  from ec_loop_run [OF this, of fl 1 ps] obtain s f where
    r: "ec_loop (EnhancedCLOCK_init n) fl 1 ps = Some (Inr (s, fl @ f))" "ec_inv s"
    by blast
  have mods: "\<forall>k. modify_bit s k \<noteq> Some True"
    using r(2) by (simp add: ec_inv_def clock_ready_def mods_clear_def)
  have same: "outcome (simulate_class EnhancedCLOCK n ps fl) =
      outcome (simulate_class SimpleCLOCK n ps fl)" if "n = 1"
  proof -
    from simulate_class_run [OF assms, of EnhancedCLOCK ps fl] obtain se fe where
      e: "simulate_class EnhancedCLOCK n ps fl = Some (Inr (se, fl @ fe))"
         "run_ok (OPT_init n) ps se fe" by blast
    from simulate_class_run [OF assms, of SimpleCLOCK ps fl] obtain ss fs where
      c: "simulate_class SimpleCLOCK n ps fl = Some (Inr (ss, fl @ fs))"
         "run_ok (OPT_init n) ps ss fs" by blast
    have one: "frames (OPT_init n) = 1"
      using that by (simp add: OPT_init_def)
    have "base_of se = base_of ss" and "map snapshot fe = map snapshot fs"
      using e(2) c(2) one unfolding run_ok_def by simp_all
    then have "se = ss" and "map snapshot (fl @ fe) = map snapshot (fl @ fs)"
      by (simp_all add: base_of_pra)
    moreover have "outcome (simulate_class EnhancedCLOCK n ps fl)
        = Some (Inr (se, map snapshot (fl @ fe)))"
      by (simp only: e(1)) (simp add: outcome_def)
    moreover have "outcome (simulate_class SimpleCLOCK n ps fl)
        = Some (Inr (ss, map snapshot (fl @ fs)))"
      by (simp only: c(1)) (simp add: outcome_def)
    ultimately show ?thesis
      by simp
  qed
  have step: "ec_step t p = Some (Inr t') \<and> modify_bit t' k = Some True \<longrightarrow>
      modify_bit t k = Some True"
    using ec_step_sets_no_modify_bit by blast
  have "EnhancedCLOCK_simulate (EnhancedCLOCK_init n) ps fl = Some (Inr (s, fl @ f))"
    using r(1) by (simp add: EnhancedCLOCK_simulate_def)
  with mods same step show ?thesis
    by blast
qed

theorem enhanced_clock_modify_bit_never_set_witness:
  "\<exists>s f. EnhancedCLOCK_simulate (EnhancedCLOCK_init 1) [1, 2, 2, 1] [] = Some (Inr (s, f)) \<and>
     (\<forall>k. modify_bit s k \<noteq> Some True) \<and>
     outcome (simulate_class EnhancedCLOCK 1 [1, 2, 2, 1] []) =
     outcome (simulate_class SimpleCLOCK 1 [1, 2, 2, 1] [])"
  using enhanced_clock_modify_bit_never_set [of 1 "[1, 2, 2, 1]" "[]"]
  by simp

text \<open>
  C5. For each of the six policies, every trace and every frame count of at least one,
  the run completes and its fault count plus its hit count is the length of the trace.
\<close>

theorem faults_plus_hits_is_trace_length:
  assumes "1 \<le> n"
  shows "\<exists>s f. simulate_class alg n ps fl = Some (Inr (s, f)) \<and>
           page_faults s + page_hits s = int (length ps)"
proof -
  from simulate_class_run [OF assms, of alg ps fl] obtain s f where
    r: "simulate_class alg n ps fl = Some (Inr (s, fl @ f))" "run_ok (OPT_init n) ps s f"
    by blast
  have "page_faults s + page_hits s = int (length ps)"
    using r(2) by (simp add: run_ok_def OPT_init_def)
  with r(1) show ?thesis by blast
qed

theorem faults_plus_hits_is_trace_length_witness:
  "\<exists>s f. simulate_class LRU 3 [1, 2, 3, 4, 1, 2, 5, 1, 2, 3, 4, 5] [] = Some (Inr (s, f)) \<and>
     page_faults s + page_hits s = 12"
  using faults_plus_hits_is_trace_length [of 3 LRU "[1, 2, 3, 4, 1, 2, 5, 1, 2, 3, 4, 5]" "[]"]
  by simp

text \<open>
  C6. For each of the six policies, every trace and every frame count of at least one,
  the resident list logged after every request, and the one left at the end, holds at
  most as many pages as there are frames.
\<close>

theorem resident_set_within_frames:
  assumes "1 \<le> n"
  shows "\<exists>s f. simulate_class alg n ps fl = Some (Inr (s, fl @ f)) \<and> length f = length ps \<and>
           (\<forall>l\<in>set f. int (length (snapshot l)) \<le> n) \<and> int (length (memory s)) \<le> n"
proof -
  from simulate_class_run [OF assms, of alg ps fl] obtain s f where
    r: "simulate_class alg n ps fl = Some (Inr (s, fl @ f))" "base_inv s"
       "run_ok (OPT_init n) ps s f"
    by blast
  have "frames s = n"
    using r(3) by (simp add: run_ok_def OPT_init_def)
  then have "int (length (memory s)) \<le> n"
    using r(2) by (simp add: base_inv_def)
  moreover have "length f = length ps" "\<forall>l\<in>set f. int (length (snapshot l)) \<le> n"
    using r(3) by (simp_all add: run_ok_def OPT_init_def list_all_iff)
  ultimately show ?thesis
    using r(1) by blast
qed

theorem resident_set_within_frames_witness:
  "\<exists>s f. simulate_class SimpleCLOCK 2 [1, 2, 1, 3, 2, 1] [] = Some (Inr (s, [] @ f)) \<and>
     length f = length [1, 2, 1, 3, 2, 1 :: int] \<and>
     (\<forall>l\<in>set f. int (length (snapshot l)) \<le> 2) \<and> int (length (memory s)) \<le> 2"
  using resident_set_within_frames [of 2 SimpleCLOCK "[1, 2, 1, 3, 2, 1]" "[]"]
  by simp

text \<open>
  C7. With one frame and a non-empty trace, each of the six policies leaves exactly the
  requested page resident after every request, counts a replacement for every fault but
  the one that filled the empty frame, and so ends with one replacement less than faults.
\<close>

theorem single_frame_replacements:
  assumes "ps \<noteq> []"
  shows "\<exists>s f. simulate_class alg 1 ps fl = Some (Inr (s, fl @ f)) \<and>
           map snapshot f = map (\<lambda>p. [p]) ps \<and>
           s = foldl single_frame_step (OPT_init 1) ps \<and>
           replacements s = page_faults s - 1"
proof -
  have "(1::int) \<le> 1" by simp
  from simulate_class_run [OF this, of alg ps fl] obtain s f where
    r: "simulate_class alg 1 ps fl = Some (Inr (s, fl @ f))" "base_inv s"
       "run_ok (OPT_init 1) ps s f"
    by blast
  have one: "frames (OPT_init 1) = 1"
    by (simp add: OPT_init_def)
  have snaps: "map snapshot f = map (\<lambda>p. [p]) ps"
    and fold: "base_of s = foldl single_frame_step (base_of (OPT_init 1)) ps"
    and mem: "memory s = last (memory (OPT_init 1) # map snapshot f)"
    using r(3) one unfolding run_ok_def by blast+
  have "memory s = [last ps]"
    using mem snaps assms by (simp add: last_map)
  then have "replacements s = page_faults s - 1"
    using r(2) by (simp add: base_inv_def)
  moreover have "s = foldl single_frame_step (OPT_init 1) ps"
    using fold by (simp add: base_of_pra)
  ultimately show ?thesis
    using r(1) snaps by blast
qed

theorem single_frame_replacements_witness:
  "\<exists>s f. simulate_class LFU 1 [7, 7, 8] [] = Some (Inr (s, [] @ f)) \<and>
     map snapshot f = [[7], [7], [8]] \<and>
     s = \<lparr>frames = 1, memory = [8], page_faults = 2, page_hits = 1, replacements = 1\<rparr> \<and>
     replacements s = page_faults s - 1"
proof -
  have "[7, 7, 8 :: int] \<noteq> []" by simp
  from single_frame_replacements [OF this, of LFU "[]"] show ?thesis
    by (simp add: single_frame_step_def OPT_init_def)
qed



text \<open>
  C9. In every state \<open>s\<close> that a run of LFU with at least one frame reaches, the next
  request does the following. A hit adds one to the frequency of the page. A fault with
  a free frame enters the page with frequency 1. A fault with a full resident list removes
  a resident page \<open>v\<close> whose frequency \<open>least\<close> is minimal among the resident pages, no
  page before \<open>v\<close> in the resident list (that is, no page that entered earlier) having that
  frequency, and enters the page with frequency 1.
\<close>

theorem lfu_evicts_first_least_frequent:
  assumes "1 \<le> n" and "LFU_simulate (LFU_init n) ps fl = Inr (s, f)"
  shows "if page \<in> set (memory s) then
           \<exists>c. map_of (page_frequency s) page = Some c \<and>
               lfu_step s page =
                 Inr (s\<lparr>page_hits := page_hits s + 1,
                        page_frequency := AList.update page (c + 1) (page_frequency s)\<rparr>)
         else if int (length (memory s)) = frames s then
           \<exists>v least pre post.
             memory s = pre @ v # post \<and>
             map_of (page_frequency s) v = Some least \<and>
             (\<forall>q\<in>set (memory s). \<exists>c. map_of (page_frequency s) q = Some c \<and> least \<le> c) \<and>
             (\<forall>q\<in>set pre. map_of (page_frequency s) q \<noteq> Some least) \<and>
             lfu_step s page =
               Inr (s\<lparr>page_faults := page_faults s + 1,
                      memory := remove1 v (memory s) @ [page],
                      replacements := replacements s + 1,
                      page_frequency :=
                        AList.update page 1 (AList.delete v (page_frequency s))\<rparr>)
         else
           lfu_step s page =
             Inr (s\<lparr>page_faults := page_faults s + 1, memory := memory s @ [page],
                    page_frequency := AList.update page 1 (page_frequency s)\<rparr>)"
proof -
  have inv: "lfu_inv s"
    using assms by (rule LFU_simulate_inv)
  then have b: "base_inv s" and keys: "fst ` set (page_frequency s) = set (memory s)"
    and dist: "distinct (map fst (page_frequency s))"
    by (simp_all add: lfu_inv_def)
  show ?thesis
  proof (cases "page \<in> set (memory s)")
    case True
    then have "page \<in> fst ` set (page_frequency s)"
      using keys by simp
    then obtain c where c: "map_of (page_frequency s) page = Some c"
      using dist by (auto simp: image_iff)
    have "lfu_step s page =
        Inr (s\<lparr>page_hits := page_hits s + 1,
               page_frequency := AList.update page (c + 1) (page_frequency s)\<rparr>)"
      using True c by (simp add: lfu_step_def is_page_in_memory_def record_page_hit_def)
    with True c show ?thesis by simp
  next
    case False
    show ?thesis
    proof (cases "int (length (memory s)) = frames s")
      case full: True
      let ?s1 = "record_page_fault s"
      have m1: "memory ?s1 = memory s" and f1: "page_frequency ?s1 = page_frequency s"
        by (simp_all add: record_page_fault_def)
      have ne: "memory ?s1 \<noteq> []"
        using full_memory_nonempty [OF b full] m1 by simp
      have k1: "fst ` set (page_frequency ?s1) = set (memory ?s1)"
        and d1: "distinct (map fst (page_frequency ?s1))"
        using keys dist m1 f1 by simp_all
      from find_least_frequent_page_first [OF ne k1 d1] obtain v least pre post where
        v: "find_least_frequent_page ?s1 = Inr (Some v)"
           "memory s = pre @ v # post"
           "map_of (page_frequency s) v = Some least"
           "\<forall>q\<in>set (memory s). \<exists>c. map_of (page_frequency s) q = Some c \<and> least \<le> c"
           "\<forall>q\<in>set pre. map_of (page_frequency s) q \<noteq> Some least"
        unfolding m1 f1 by blast
      have vm: "v \<in> set (memory s)"
        using v(2) by simp
      have del: "dict_del (page_frequency s) v = Inr (AList.delete v (page_frequency s))"
        using v(3) by (simp add: dict_del_def)
      have "lfu_step s page =
          Inr (s\<lparr>page_faults := page_faults s + 1,
                 memory := remove1 v (memory s) @ [page],
                 replacements := replacements s + 1,
                 page_frequency := AList.update page 1 (AList.delete v (page_frequency s))\<rparr>)"
        using False full v(1) vm del
        by (simp add: lfu_step_def is_page_in_memory_def list_remove_def Let_def)
           (simp add: record_page_fault_def)
      with v(2,3,4,5) have "\<exists>v least pre post.
             memory s = pre @ v # post \<and>
             map_of (page_frequency s) v = Some least \<and>
             (\<forall>q\<in>set (memory s). \<exists>c. map_of (page_frequency s) q = Some c \<and> least \<le> c) \<and>
             (\<forall>q\<in>set pre. map_of (page_frequency s) q \<noteq> Some least) \<and>
             lfu_step s page =
               Inr (s\<lparr>page_faults := page_faults s + 1,
                      memory := remove1 v (memory s) @ [page],
                      replacements := replacements s + 1,
                      page_frequency :=
                        AList.update page 1 (AList.delete v (page_frequency s))\<rparr>)"
        by blast
      with False full show ?thesis by simp
    next
      case notfull: False
      have "lfu_step s page =
          Inr (s\<lparr>page_faults := page_faults s + 1, memory := memory s @ [page],
                 page_frequency := AList.update page 1 (page_frequency s)\<rparr>)"
        using False notfull
        by (simp add: lfu_step_def is_page_in_memory_def record_page_fault_def)
      with False notfull show ?thesis by simp
    qed
  qed
qed

theorem lfu_evicts_first_least_frequent_witness:
  "\<exists>v least pre post.
     [1, 2, 3 :: int] = pre @ v # post \<and>
     map_of [(1, 2), (2, 1), (3, 1 :: int)] v = Some least \<and>
     (\<forall>q\<in>set [1, 2, 3 :: int].
        \<exists>c. map_of [(1, 2), (2, 1), (3, 1 :: int)] q = Some c \<and> least \<le> c) \<and>
     (\<forall>q\<in>set pre. map_of [(1 :: int, 2), (2, 1), (3, 1 :: int)] q \<noteq> Some least) \<and>
     lfu_step \<lparr>frames = 3, memory = [1, 2, 3], page_faults = 3, page_hits = 1,
         replacements = 0, page_frequency = [(1, 2), (2, 1), (3, 1)]\<rparr> 4 =
       Inr \<lparr>frames = 3, memory = remove1 v [1, 2, 3] @ [4], page_faults = 4, page_hits = 1,
         replacements = 1,
         page_frequency = AList.update 4 1 (AList.delete v [(1, 2), (2, 1), (3, 1)])\<rparr>"
proof -
  have one: "(1::int) \<le> 3" by simp
  have run: "LFU_simulate (LFU_init 3) [1, 2, 1, 3] [] =
      Inr (\<lparr>frames = 3, memory = [1, 2, 3], page_faults = 3, page_hits = 1,
             replacements = 0, page_frequency = [(1, 2), (2, 1), (3, 1)]\<rparr>,
           [(1, ''LFU'', [1]), (2, ''LFU'', [1, 2]), (3, ''LFU'', [1, 2]),
            (4, ''LFU'', [1, 2, 3])])"
    by (simp add: LFU_simulate_def LFU_init_def lfu_step_def is_page_in_memory_def
        record_page_fault_def record_page_hit_def)
  from lfu_evicts_first_least_frequent [OF one run, of 4] show ?thesis
    by simp
qed

text \<open>
  C10. In each of the six policies a request for a resident page leaves the resident
  list, the fault count and the replacement count as they were. It adds one to the hit
  count, and besides that LRU records the time of the access, LFU adds one to the
  frequency of the page, and the clock policies set the use bit of its frame; FIFO and OPT
  change nothing else. (In LFU every resident page has a frequency in the states a run
  reaches.)
\<close>

theorem hit_changes_only_bookkeeping:
  "(page \<in> set (memory a) \<longrightarrow>
      fifo_step a page = Inr (a\<lparr>page_hits := page_hits a + 1\<rparr>)) \<and>
   (page \<in> set (memory b) \<longrightarrow>
      lru_step b time page =
        Inr (b\<lparr>page_hits := page_hits b + 1,
               page_time := AList.update page time (page_time b)\<rparr>)) \<and>
   (page \<in> set (memory c) \<longrightarrow>
      opt_step c page future_sequence = Inr (c\<lparr>page_hits := page_hits c + 1\<rparr>)) \<and>
   (page \<in> set (memory d) \<and> map_of (page_frequency d) page = Some k \<longrightarrow>
      lfu_step d page =
        Inr (d\<lparr>page_hits := page_hits d + 1,
               page_frequency := AList.update page (k + 1) (page_frequency d)\<rparr>)) \<and>
   (page \<in> set (memory e) \<longrightarrow>
      sc_step e page =
        Inr (e\<lparr>page_hits := page_hits e + 1,
               use_bit := (use_bit e)(int (index_of (memory e) page) \<mapsto> True)\<rparr>)) \<and>
   (page \<in> set (memory g) \<longrightarrow>
      ec_step g page =
        Some (Inr (g\<lparr>page_hits := page_hits g + 1,
                     use_bit := (use_bit g)(int (index_of (memory g) page) \<mapsto> True)\<rparr>)))"
  by (simp add: fifo_step_def lru_step_def opt_step_def lfu_step_def sc_step_def ec_step_def
      is_page_in_memory_def record_page_hit_def Let_def)

theorem hit_changes_only_bookkeeping_witness:
  "fifo_step \<lparr>frames = 2, memory = [7, 9], page_faults = 2, page_hits = 0,
       replacements = 0, queue = [7, 9]\<rparr> 9 =
     Inr \<lparr>frames = 2, memory = [7, 9], page_faults = 2, page_hits = 1,
       replacements = 0, queue = [7, 9]\<rparr> \<and>
   lru_step \<lparr>frames = 2, memory = [7, 9], page_faults = 2, page_hits = 0,
       replacements = 0, page_time = [(7, 0), (9, 1)]\<rparr> 2 9 =
     Inr \<lparr>frames = 2, memory = [7, 9], page_faults = 2, page_hits = 1,
       replacements = 0, page_time = [(7, 0), (9, 2)]\<rparr> \<and>
   opt_step \<lparr>frames = 2, memory = [7, 9], page_faults = 2, page_hits = 0,
       replacements = 0\<rparr> 9 [7] =
     Inr \<lparr>frames = 2, memory = [7, 9], page_faults = 2, page_hits = 1,
       replacements = 0\<rparr> \<and>
   lfu_step \<lparr>frames = 2, memory = [7, 9], page_faults = 2, page_hits = 0,
       replacements = 0, page_frequency = [(7, 1), (9, 1)]\<rparr> 9 =
     Inr \<lparr>frames = 2, memory = [7, 9], page_faults = 2, page_hits = 1,
       replacements = 0, page_frequency = [(7, 1), (9, 2)]\<rparr> \<and>
   sc_step \<lparr>frames = 2, memory = [7, 9], page_faults = 2, page_hits = 0,
       replacements = 0, use_bit = [0 \<mapsto> False, 1 \<mapsto> True], hand = 1\<rparr> 9 =
     Inr \<lparr>frames = 2, memory = [7, 9], page_faults = 2, page_hits = 1,
       replacements = 0, use_bit = [0 \<mapsto> False, 1 \<mapsto> True, 1 \<mapsto> True], hand = 1\<rparr> \<and>
   ec_step \<lparr>frames = 2, memory = [7, 9], page_faults = 2, page_hits = 0,
       replacements = 0, use_bit = [0 \<mapsto> False, 1 \<mapsto> True], hand = 1,
       modify_bit = [0 \<mapsto> False, 1 \<mapsto> False]\<rparr> 9 =
     Some (Inr \<lparr>frames = 2, memory = [7, 9], page_faults = 2, page_hits = 1,
       replacements = 0, use_bit = [0 \<mapsto> False, 1 \<mapsto> True, 1 \<mapsto> True], hand = 1,
       modify_bit = [0 \<mapsto> False, 1 \<mapsto> False]\<rparr>)"
  using hit_changes_only_bookkeeping
    [where page = 9 and time = 2 and future_sequence = "[7]" and k = 1
       and a = "\<lparr>frames = 2, memory = [7, 9], page_faults = 2, page_hits = 0,
          replacements = 0, queue = [7, 9]\<rparr>"
       and b = "\<lparr>frames = 2, memory = [7, 9], page_faults = 2, page_hits = 0,
          replacements = 0, page_time = [(7, 0), (9, 1)]\<rparr>"
       and c = "\<lparr>frames = 2, memory = [7, 9], page_faults = 2, page_hits = 0,
          replacements = 0\<rparr>"
       and d = "\<lparr>frames = 2, memory = [7, 9], page_faults = 2, page_hits = 0,
          replacements = 0, page_frequency = [(7, 1), (9, 1)]\<rparr>"
       and e = "\<lparr>frames = 2, memory = [7, 9], page_faults = 2, page_hits = 0,
          replacements = 0, use_bit = [0 \<mapsto> False, 1 \<mapsto> True], hand = 1\<rparr>"
       and g = "\<lparr>frames = 2, memory = [7, 9], page_faults = 2, page_hits = 0,
          replacements = 0, use_bit = [0 \<mapsto> False, 1 \<mapsto> True], hand = 1,
          modify_bit = [0 \<mapsto> False, 1 \<mapsto> False]\<rparr>"]
  by simp

end
